theory Spec2Isabelle
  imports Main "HOL-Library.AList" "HOL-Library.List_Lexorder" "HOL-Library.Multiset"
    "HOL-Library.Sublist"
begin

section \<open>Agent events panel (src/panels/AgentEventsPanel.tsx)\<close>

subsection \<open>Data\<close>

text \<open>
  The event payload type comes from an external package; the record keeps the fields the
  panel reads. Optional fields are options, and a JavaScript string is a \<open>string\<close>.
  Record fields are global constants in HOL, so the fields of the event carry the prefix
  \<open>ev_\<close> where the session record has a field of the same name.
\<close>

record RepositoryInfo =
  root :: "string option"

record AgentEvent =
  eventType :: string
  ev_sessionId :: string
  ev_toolName :: "string option"
  ev_repository :: "RepositoryInfo option"
  ev_workingDirectory :: "string option"

text \<open>
  \<open>interface EventEntry\<close>. The counter behind \<open>localIndex\<close> starts at 0 and is only
  ever incremented by one, so it is a natural number (a JavaScript number holds these
  exactly below \<open>2^53\<close>, which no run of the panel reaches).
\<close>

record EventEntry =
  event :: AgentEvent
  timestamp :: int
  localIndex :: nat

definition MAX_EVENTS :: nat where
  "MAX_EVENTS = 500"

text \<open>
  The component's hooks: four \<open>useState\<close> cells and the \<open>useRef\<close> counter
  (\<open>eventCounterRef.current\<close>).
\<close>

record PanelState =
  events :: "EventEntry list"
  expandedEvents :: "nat set"
  filterByRepo :: bool
  selectedEventTypes :: "string set"
  autoScroll :: bool
  eventCounter :: nat

definition initialPanelState :: PanelState where
  "initialPanelState =
     \<lparr>events = [], expandedEvents = {}, filterByRepo = True,
      selectedEventTypes = {}, autoScroll = True, eventCounter = 0\<rparr>"

subsection \<open>The receive handler\<close>

text \<open>Truthiness of a \<open>string | null\<close>: neither null nor the empty string.\<close>

definition truthy :: "string option \<Rightarrow> bool" where
  "truthy v = (case v of None \<Rightarrow> False | Some p \<Rightarrow> p \<noteq> [])"

text \<open>\<open>a || b\<close> on optional strings: \<open>a\<close> when it is truthy, otherwise \<open>b\<close>.\<close>

definition orElse :: "string option \<Rightarrow> string option \<Rightarrow> string option" where
  "orElse a b = (if truthy a then a else b)"

text \<open>\<open>agentEvent.repository?.root || agentEvent.workingDirectory\<close>\<close>

definition eventRepoPath :: "AgentEvent \<Rightarrow> string option" where
  "eventRepoPath agentEvent =
     orElse (case ev_repository agentEvent of None \<Rightarrow> None | Some r \<Rightarrow> root r)
            (ev_workingDirectory agentEvent)"

text \<open>\<open>xs.slice(-n)\<close> for \<open>n > 0\<close>: the last \<open>n\<close> elements, all of them when there are fewer.\<close>

definition sliceLast :: "nat \<Rightarrow> 'a list \<Rightarrow> 'a list" where
  "sliceLast n xs = drop (length xs - n) xs"

text \<open>The body of the \<open>setEvents\<close> updater after the entry is built (lines 85-86).\<close>

definition appendEntry :: "EventEntry list \<Rightarrow> EventEntry \<Rightarrow> EventEntry list" where
  "appendEntry prev newEntry =
     (let updated = prev @ [newEntry]
      in if length updated > MAX_EVENTS then sliceLast MAX_EVENTS updated else updated)"

text \<open>The entry built at lines 79-83; \<open>now\<close> is the value of \<open>Date.now()\<close>.\<close>

definition newEntry :: "PanelState \<Rightarrow> AgentEvent \<Rightarrow> int \<Rightarrow> EventEntry" where
  "newEntry s agentEvent now =
     \<lparr>event = agentEvent, timestamp = now, localIndex = eventCounter s\<rparr>"

text \<open>The repository gate of lines 71-76: true when the handler returns early.\<close>

definition droppedByRepoFilter :: "string option \<Rightarrow> AgentEvent \<Rightarrow> PanelState \<Rightarrow> bool" where
  "droppedByRepoFilter repositoryPath agentEvent s =
     (filterByRepo s \<and> truthy repositoryPath \<and> eventRepoPath agentEvent \<noteq> repositoryPath)"

text \<open>
  The handler subscribed to \<open>agent-event:received\<close>. \<open>repositoryPath\<close> is
  \<open>context.currentScope.repository?.path ?? null\<close>, \<open>payload\<close> is
  \<open>panelEvent.payload?.event\<close>.
\<close>

definition onAgentEventReceived ::
  "string option \<Rightarrow> AgentEvent option \<Rightarrow> int \<Rightarrow> PanelState \<Rightarrow> PanelState" where
  "onAgentEventReceived repositoryPath payload now s =
     (case payload of
        None \<Rightarrow> s
      | Some agentEvent \<Rightarrow>
          if droppedByRepoFilter repositoryPath agentEvent s then s
          else s\<lparr>events := appendEntry (events s) (newEntry s agentEvent now),
                 eventCounter := eventCounter s + 1\<rparr>)"

subsection \<open>The other callbacks\<close>

text \<open>The updater inside \<open>toggleExpanded\<close>: copy the set, delete or add the index.\<close>

definition toggleIn :: "'a \<Rightarrow> 'a set \<Rightarrow> 'a set" where
  "toggleIn x prev = (if x \<in> prev then prev - {x} else insert x prev)"

definition toggleExpanded :: "nat \<Rightarrow> PanelState \<Rightarrow> PanelState" where
  "toggleExpanded index s = s\<lparr>expandedEvents := toggleIn index (expandedEvents s)\<rparr>"

definition clearEvents :: "PanelState \<Rightarrow> PanelState" where
  "clearEvents s = s\<lparr>events := [], expandedEvents := {}\<rparr>"

definition toggleEventTypeFilter :: "string \<Rightarrow> PanelState \<Rightarrow> PanelState" where
  "toggleEventTypeFilter t s = s\<lparr>selectedEventTypes := toggleIn t (selectedEventTypes s)\<rparr>"

text \<open>The button \<open>onClick={() => setFilterByRepo(!filterByRepo)}\<close>.\<close>

definition toggleFilterByRepo :: "PanelState \<Rightarrow> PanelState" where
  "toggleFilterByRepo s = s\<lparr>filterByRepo := \<not> filterByRepo s\<rparr>"

text \<open>The button \<open>onClick={() => setAutoScroll(!autoScroll)}\<close>.\<close>

definition toggleAutoScroll :: "PanelState \<Rightarrow> PanelState" where
  "toggleAutoScroll s = s\<lparr>autoScroll := \<not> autoScroll s\<rparr>"

text \<open>The list the panel renders (\<open>filteredEvents\<close>).\<close>

definition filteredEvents :: "PanelState \<Rightarrow> EventEntry list" where
  "filteredEvents s =
     (if selectedEventTypes s = {} then events s
      else filter (\<lambda>entry. eventType (event entry) \<in> selectedEventTypes s) (events s))"

subsection \<open>Runs of the panel\<close>

text \<open>
  Everything that can happen to a mounted panel: an event arrives (with the scope's
  repository path and the clock at that moment), or the user presses a control.
\<close>

datatype action =
    Receive "string option" "AgentEvent option" int
  | ClearEvents
  | ToggleExpanded nat
  | ToggleEventType string
  | ToggleFilterByRepo
  | ToggleAutoScroll

fun step :: "action \<Rightarrow> PanelState \<Rightarrow> PanelState" where
  "step (Receive repositoryPath payload now) s = onAgentEventReceived repositoryPath payload now s"
| "step ClearEvents s = clearEvents s"
| "step (ToggleExpanded i) s = toggleExpanded i s"
| "step (ToggleEventType t) s = toggleEventTypeFilter t s"
| "step ToggleFilterByRepo s = toggleFilterByRepo s"
| "step ToggleAutoScroll s = toggleAutoScroll s"

fun run :: "action list \<Rightarrow> PanelState \<Rightarrow> PanelState" where
  "run [] s = s"
| "run (a # as) s = run as (step a s)"

text \<open>The entries built along a run, in the order of receipt (cleared ones included).\<close>

fun created :: "action list \<Rightarrow> PanelState \<Rightarrow> EventEntry list" where
  "created [] s = []"
| "created (Receive repositoryPath (Some agentEvent) now # as) s =
     (if droppedByRepoFilter repositoryPath agentEvent s then []
      else [newEntry s agentEvent now])
     @ created as (step (Receive repositoryPath (Some agentEvent) now) s)"
| "created (a # as) s = created as (step a s)"

text \<open>
  The actions of receiving the given events, each with its clock value, while no
  repository is scoped (so that the repository gate lets every one through).
\<close>

definition receipts :: "(AgentEvent \<times> int) list \<Rightarrow> action list" where
  "receipts xs = map (\<lambda>(agentEvent, now). Receive None (Some agentEvent) now) xs"

text \<open>
  The invariant of the buffer: its \<open>localIndex\<close> values increase strictly and lie below
  the counter.
\<close>

definition countedBelow :: "PanelState \<Rightarrow> bool" where
  "countedBelow s \<longleftrightarrow>
     sorted_wrt (<) (map localIndex (events s))
     \<and> (\<forall>x\<in>set (events s). localIndex x < eventCounter s)"

text \<open>An event of another repository, for the examples.\<close>

definition otherRepoEvent :: AgentEvent where
  "otherRepoEvent =
     \<lparr>eventType = ''stop'', ev_sessionId = ''s1'', ev_toolName = None,
      ev_repository = Some \<lparr>root = Some ''/other''\<rparr>, ev_workingDirectory = Some ''/repo''\<rparr>"

section \<open>Session types (src/types/session.types.ts)\<close>

datatype TodoStatus = pending | in_progress | completed

text \<open>\<open>interface TodoItem\<close>; the field \<open>id\<close> is \<open>todoId\<close> here, \<open>id\<close> being the identity of HOL.\<close>

record TodoItem =
  todoId :: string
  content :: string
  todoStatus :: TodoStatus
  todoTimestamp :: int

datatype SessionStatus = active | idle | waiting | inactive | stopped

text \<open>The string a \<open>SessionStatus\<close> is at run time.\<close>

fun statusString :: "SessionStatus \<Rightarrow> string" where
  "statusString active = ''active''"
| "statusString idle = ''idle''"
| "statusString waiting = ''waiting''"
| "statusString inactive = ''inactive''"
| "statusString stopped = ''stopped''"

text \<open>
  \<open>interface UIAgentSessionData\<close>, the fields the panels compute with. The interface
  declares \<open>lastActivity\<close> a number, the panel reads it with \<open>?? 0\<close>: it is optional here.
\<close>

record UIAgentSessionData =
  sessionId :: string
  directory :: string
  workingDirectory :: string
  lastActivity :: "int option"
  customName :: "string option"
  status :: SessionStatus

record LatestEvent =
  toolName :: string
  latestTimestamp :: int
  fileName :: "string option"

record SessionWithEvents =
  session :: UIAgentSessionData
  sessionEvents :: "AgentEvent list"
  latestEvent :: "LatestEvent option"
  lastTodos :: "TodoItem list option"

definition SESSION_COLORS :: "string list" where
  "SESSION_COLORS =
     [''#3b82f6'', ''#10b981'', ''#8b5cf6'', ''#f59e0b'',
      ''#ef4444'', ''#06b6d4'', ''#ec4899'', ''#14b8a6'']"

text \<open>
  JavaScript's \<open>a % b\<close> on integers with \<open>b\<close> not zero: the remainder has the sign of
  the dividend.
\<close>

definition jsRem :: "int \<Rightarrow> int \<Rightarrow> int" where
  "jsRem a b = sgn a * (\<bar>a\<bar> mod \<bar>b\<bar>)"

text \<open>
  \<open>xs[i]\<close> for an integer \<open>i\<close>: \<open>undefined\<close> (here \<open>None\<close>) outside the array.
\<close>

definition arrayGet :: "'a list \<Rightarrow> int \<Rightarrow> 'a option" where
  "arrayGet xs i = (if 0 \<le> i \<and> i < int (length xs) then Some (xs ! nat i) else None)"

definition getSessionColor :: "int \<Rightarrow> string option" where
  "getSessionColor index = arrayGet SESSION_COLORS (jsRem index (int (length SESSION_COLORS)))"

section \<open>Session card (src/components/AgentSessionCard.tsx)\<close>

text \<open>\<open>xs.find(p)\<close>: the first element that satisfies \<open>p\<close>.\<close>

fun arrayFind :: "('a \<Rightarrow> bool) \<Rightarrow> 'a list \<Rightarrow> 'a option" where
  "arrayFind p [] = None"
| "arrayFind p (x # xs) = (if p x then Some x else arrayFind p xs)"

definition hasTodos :: "TodoItem list option \<Rightarrow> bool" where
  "hasTodos todos = (case todos of None \<Rightarrow> False | Some ts \<Rightarrow> length ts > 0)"

definition getTodoToShow :: "TodoItem list option \<Rightarrow> TodoItem option" where
  "getTodoToShow todos =
     (case todos of
        None \<Rightarrow> None
      | Some ts \<Rightarrow>
          if \<not> hasTodos todos then None
          else
            (case arrayFind (\<lambda>t. todoStatus t = in_progress) ts of
               Some inProgress \<Rightarrow> Some inProgress
             | None \<Rightarrow>
                 (let pendingItems = filter (\<lambda>t. todoStatus t = pending) ts
                  in if length pendingItems > 0 then Some (hd pendingItems)
                     else
                       (let completedItems = filter (\<lambda>t. todoStatus t = completed) ts
                        in arrayGet completedItems (int (length completedItems) - 1)))))"

section \<open>Agent sessions panel (src/panels/AgentSessionsPanel.tsx)\<close>

subsection \<open>Strings\<close>

definition slash :: char where
  "slash = CHR ''/''"

definition backslash :: char where
  "backslash = CHR 0x5C"

text \<open>\<open>s.replace(/\\/g, '/')\<close>: every backslash becomes a slash.\<close>

definition replaceBackslashes :: "string \<Rightarrow> string" where
  "replaceBackslashes s = map (\<lambda>c. if c = backslash then slash else c) s"

text \<open>\<open>s.replace(/\/+$/, '')\<close>: the run of slashes that ends the string is removed.\<close>

definition stripTrailingSlashes :: "string \<Rightarrow> string" where
  "stripTrailingSlashes s = rev (dropWhile (\<lambda>c. c = slash) (rev s))"

text \<open>
  \<open>p.replace(/\\/g, '/').replace(/\/+$/, '') || p\<close>, the expression both
  \<open>normalizedRepositoryPath\<close> and \<open>normalizedKey\<close> use.
\<close>

definition normalizePath :: "string \<Rightarrow> string" where
  "normalizePath p =
     (let stripped = stripTrailingSlashes (replaceBackslashes p)
      in if stripped \<noteq> [] then stripped else p)"

definition normalizedRepositoryPath :: "string option \<Rightarrow> string option" where
  "normalizedRepositoryPath repositoryPath =
     (case repositoryPath of
        None \<Rightarrow> None
      | Some p \<Rightarrow> if p = [] then None else Some (normalizePath p))"

text \<open>
  A JavaScript string is the list of its code units; the model has the code units below
  256 (ASCII and Latin-1). On these \<open>toLowerCase\<close> changes the capital letters and no
  other character: A to Z (codes 65 to 90) and the Latin-1 capitals (codes 192 to 222,
  the multiplication sign 215 apart). The lower-case letter is 32 further, which sets the
  bit of value 32. Strings with code units from 256 on are outside the model.
\<close>

definition lowerChar :: "char \<Rightarrow> char" where
  "lowerChar c =
     (if 65 \<le> (of_char c :: nat) \<and> (of_char c :: nat) \<le> 90
         \<or> 192 \<le> (of_char c :: nat) \<and> (of_char c :: nat) \<le> 222
           \<and> (of_char c :: nat) \<noteq> 215
      then (case c of Char b0 b1 b2 b3 b4 b5 b6 b7 \<Rightarrow> Char b0 b1 b2 b3 b4 True b6 b7)
      else c)"

definition toLowerCase :: "string \<Rightarrow> string" where
  "toLowerCase s = map lowerChar s"

text \<open>\<open>xs.join(sep)\<close>\<close>

fun joinWith :: "string \<Rightarrow> string list \<Rightarrow> string" where
  "joinWith sep [] = []"
| "joinWith sep [x] = x"
| "joinWith sep (x # y # ys) = x @ sep @ joinWith sep (y # ys)"

text \<open>\<open>s.includes(q)\<close>: \<open>q\<close> occurs in \<open>s\<close> as a contiguous run.\<close>

fun stringIncludes :: "string \<Rightarrow> string \<Rightarrow> bool" where
  "stringIncludes [] q = (q = [])"
| "stringIncludes (c # cs) q = (prefix q (c # cs) \<or> stringIncludes cs q)"

text \<open>\<open>xs.filter(Boolean)\<close> on strings that may be undefined: the non-empty ones stay.\<close>

fun filterBoolean :: "string option list \<Rightarrow> string list" where
  "filterBoolean [] = []"
| "filterBoolean (None # xs) = filterBoolean xs"
| "filterBoolean (Some x # xs) = (if x = [] then filterBoolean xs else x # filterBoolean xs)"

subsection \<open>Filtering\<close>

text \<open>The array of lines 81-87, \<open>None\<close> where the field is undefined.\<close>

definition searchFields :: "SessionWithEvents \<Rightarrow> string option list" where
  "searchFields s =
     [customName (session s),
      Some (sessionId (session s)),
      Some (workingDirectory (session s)),
      map_option toolName (latestEvent s),
      Option.bind (latestEvent s) fileName]"

definition searchableText :: "SessionWithEvents \<Rightarrow> string" where
  "searchableText s = toLowerCase (joinWith '' '' (filterBoolean (searchFields s)))"

definition filteredSessions ::
  "SessionWithEvents list \<Rightarrow> string \<Rightarrow> string \<Rightarrow> SessionWithEvents list" where
  "filteredSessions sessions statusFilter searchQuery =
     (let filtered1 =
            (if statusFilter \<noteq> ''all''
             then filter (\<lambda>s. statusString (status (session s)) = statusFilter) sessions
             else sessions)
      in if searchQuery \<noteq> []
         then (let query = toLowerCase searchQuery
               in filter (\<lambda>s. stringIncludes (searchableText s) query) filtered1)
         else filtered1)"

subsection \<open>Grouping by directory\<close>

text \<open>
  \<open>interface SessionDirectoryGroup\<close>. Its fields \<open>directory\<close>, \<open>sessions\<close> and
  \<open>lastActivity\<close> are \<open>groupDirectory\<close>, \<open>groupSessions\<close> and \<open>groupLastActivity\<close> here,
  the session record having fields of those names.
\<close>

record SessionDirectoryGroup =
  groupDirectory :: string
  normalizedDirectory :: string
  groupSessions :: "SessionWithEvents list"
  groupLastActivity :: int
  isCurrentDirectory :: bool

definition UNKNOWN_DIRECTORY_LABEL :: string where
  "UNKNOWN_DIRECTORY_LABEL = ''Unknown Directory''"

text \<open>\<open>session.directory || session.workingDirectory || UNKNOWN_DIRECTORY_LABEL\<close>\<close>

definition rawDirectory :: "SessionWithEvents \<Rightarrow> string" where
  "rawDirectory s =
     (if directory (session s) \<noteq> [] then directory (session s)
      else if workingDirectory (session s) \<noteq> [] then workingDirectory (session s)
      else UNKNOWN_DIRECTORY_LABEL)"

definition normalizedKey :: "SessionWithEvents \<Rightarrow> string" where
  "normalizedKey s =
     (if rawDirectory s = UNKNOWN_DIRECTORY_LABEL then UNKNOWN_DIRECTORY_LABEL
      else normalizePath (rawDirectory s))"

text \<open>
  The body of the \<open>forEach\<close>. The \<open>Map\<close> is an association list in insertion order:
  \<open>AList.update\<close> replaces the value of a key in place and appends a new key at the end,
  as \<open>Map.prototype.set\<close> does; the group object the source mutates is written back.
\<close>

definition addSession ::
  "(string \<times> SessionDirectoryGroup) list \<Rightarrow> SessionWithEvents
     \<Rightarrow> (string \<times> SessionDirectoryGroup) list" where
  "addSession groups sessionWithEvents =
     (let key = normalizedKey sessionWithEvents;
          group0 =
            (case map_of groups key of
               Some g \<Rightarrow> g
             | None \<Rightarrow>
                 \<lparr>groupDirectory = rawDirectory sessionWithEvents,
                  normalizedDirectory = key,
                  groupSessions = [],
                  groupLastActivity = 0,
                  isCurrentDirectory = False\<rparr>);
          group1 = group0\<lparr>groupSessions := groupSessions group0 @ [sessionWithEvents]\<rparr>;
          activity = (case lastActivity (session sessionWithEvents) of None \<Rightarrow> 0 | Some t \<Rightarrow> t);
          group2 =
            (if activity > groupLastActivity group1
             then group1\<lparr>groupLastActivity := activity\<rparr> else group1)
      in AList.update key group2 groups)"

text \<open>
  \<open>Array.prototype.sort\<close> with a comparator: a stable sort. \<open>insertBy\<close> puts \<open>x\<close> before
  the first element it does not come after, so equal elements keep their order.
\<close>

fun insertBy :: "('a \<Rightarrow> 'a \<Rightarrow> int) \<Rightarrow> 'a \<Rightarrow> 'a list \<Rightarrow> 'a list" where
  "insertBy cmp x [] = [x]"
| "insertBy cmp x (y # ys) = (if cmp x y \<le> 0 then x # y # ys else y # insertBy cmp x ys)"

fun sortBy :: "('a \<Rightarrow> 'a \<Rightarrow> int) \<Rightarrow> 'a list \<Rightarrow> 'a list" where
  "sortBy cmp [] = []"
| "sortBy cmp (x # xs) = insertBy cmp x (sortBy cmp xs)"

text \<open>
  The comparator of lines 148-152. \<open>String.prototype.localeCompare\<close> depends on the
  host's locale and is a parameter.
\<close>

definition compareGroups ::
  "(string \<Rightarrow> string \<Rightarrow> int) \<Rightarrow> SessionDirectoryGroup \<Rightarrow> SessionDirectoryGroup \<Rightarrow> int" where
  "compareGroups localeCompare a b =
     (if isCurrentDirectory a \<and> \<not> isCurrentDirectory b then - 1
      else if isCurrentDirectory b \<and> \<not> isCurrentDirectory a then 1
      else localeCompare (groupDirectory a) (groupDirectory b))"

definition markCurrent :: "string option \<Rightarrow> SessionDirectoryGroup \<Rightarrow> SessionDirectoryGroup" where
  "markCurrent normalizedRepo g =
     g\<lparr>isCurrentDirectory :=
         normalizedRepo \<noteq> None \<and> Some (normalizedDirectory g) = normalizedRepo\<rparr>"

definition sessionsByDirectory ::
  "(string \<Rightarrow> string \<Rightarrow> int) \<Rightarrow> string option \<Rightarrow> SessionWithEvents list
     \<Rightarrow> SessionDirectoryGroup list" where
  "sessionsByDirectory localeCompare normalizedRepo filtered =
     (let groups = foldl addSession [] filtered;
          sortedGroups = map (markCurrent normalizedRepo) (map snd groups)
      in sortBy (compareGroups localeCompare) sortedGroups)"

text \<open>The groups the panel renders, from what the host supplies and the two filters.\<close>

definition directoryGroups ::
  "(string \<Rightarrow> string \<Rightarrow> int) \<Rightarrow> string option \<Rightarrow> SessionWithEvents list \<Rightarrow> string \<Rightarrow> string
     \<Rightarrow> SessionDirectoryGroup list" where
  "directoryGroups localeCompare repositoryPath sessions statusFilter searchQuery =
     sessionsByDirectory localeCompare (normalizedRepositoryPath repositoryPath)
       (filteredSessions sessions statusFilter searchQuery)"

section \<open>Notions for the statements, and example data\<close>

text \<open>A todo item with the given name, status and timestamp, for the examples.\<close>

definition todo :: "string \<Rightarrow> TodoStatus \<Rightarrow> int \<Rightarrow> TodoItem" where
  "todo n st t = \<lparr>todoId = n, content = n, todoStatus = st, todoTimestamp = t\<rparr>"

text \<open>The two path separators, and strings that are the same up to the separators used.\<close>

definition isSeparator :: "char \<Rightarrow> bool" where
  "isSeparator c = (c = slash \<or> c = backslash)"

definition sameUpToSeparators :: "string \<Rightarrow> string \<Rightarrow> bool" where
  "sameUpToSeparators d d' = list_all2 (\<lambda>a b. a = b \<or> isSeparator a \<and> isSeparator b) d d'"

text \<open>A Windows path for the examples: \<open>C:\<close>, a backslash, \<open>r\<close>, a backslash.\<close>

definition windowsPath :: string where
  "windowsPath = [CHR ''C'', CHR '':'', backslash, CHR ''r'', backslash]"

text \<open>
  A session with the given id, directory, working directory and status, without custom
  name, activity, latest event and todos, for the examples.
\<close>

definition mkSession :: "string \<Rightarrow> string \<Rightarrow> string \<Rightarrow> SessionStatus \<Rightarrow> SessionWithEvents" where
  "mkSession i d w st =
     \<lparr>session = \<lparr>sessionId = i, directory = d, workingDirectory = w, lastActivity = None,
                  customName = None, status = st\<rparr>,
      sessionEvents = [], latestEvent = None, lastTodos = None\<rparr>"

text \<open>
  A session whose working directory is the empty string, with a latest event, for the
  examples.
\<close>

definition emptyDirSession :: SessionWithEvents where
  "emptyDirSession =
     (mkSession ''a1'' ''/repo'' [] active)
       \<lparr>latestEvent := Some \<lparr>toolName = ''Read'', latestTimestamp = 0, fileName = None\<rparr>\<rparr>"

text \<open>
  The invariant of the \<open>forEach\<close> loop over the sessions \<open>seen\<close> so far: the keys of the
  map are distinct, they are the keys of the sessions seen, and the group under a key
  carries that key and holds the sessions seen with that key, in their order.
\<close>

definition groupedUpTo ::
  "(string \<times> SessionDirectoryGroup) list \<Rightarrow> SessionWithEvents list \<Rightarrow> bool" where
  "groupedUpTo groups seen \<longleftrightarrow>
     distinct (map fst groups)
     \<and> fst ` set groups = normalizedKey ` set seen
     \<and> (\<forall>k g. map_of groups k = Some g \<longrightarrow>
           normalizedDirectory g = k
           \<and> groupSessions g = filter (\<lambda>s. normalizedKey s = k) seen)"

text \<open>The code units of a string, as numbers; lists of numbers are ordered lexicographically.\<close>

definition codeUnits :: "string \<Rightarrow> nat list" where
  "codeUnits s = map of_char s"

text \<open>
  One consistent comparison of strings, for the examples: the lower-cased strings are
  compared by their code units, and of two strings that differ in letter case only, the
  one with the lower-case letter at the first difference comes first. On strings made of
  slashes, digits and the letters a to z and A to Z this is the order of the root locale
  collation (\<open>/a\<close> before \<open>/B\<close>, \<open>/b\<close> before \<open>/B\<close>); it is not meant to be
  \<open>localeCompare\<close> on other strings.
\<close>

definition foldedCompare :: "string \<Rightarrow> string \<Rightarrow> int" where
  "foldedCompare a b =
     (if codeUnits (toLowerCase a) < codeUnits (toLowerCase b) then - 1
      else if codeUnits (toLowerCase b) < codeUnits (toLowerCase a) then 1
      else if codeUnits b < codeUnits a then - 1
      else if codeUnits a < codeUnits b then 1
      else 0)"

text \<open>Four sessions in three directories, for the examples.\<close>

definition exampleSessions :: "SessionWithEvents list" where
  "exampleSessions =
     [mkSession ''s1'' ''/b'' ''/b'' active,
      mkSession ''s2'' ''/repo/'' ''/repo'' idle,
      mkSession ''s3'' ''/a/'' ''/a'' active,
      mkSession ''s4'' ''/b/'' [] active]"

section \<open>Properties of the events panel\<close>

lemma length_sliceLast: "length (sliceLast n xs) = min n (length xs)"
  by (simp add: sliceLast_def)

lemma appendEntry_sliceLast: "appendEntry prev e = sliceLast MAX_EVENTS (prev @ [e])"
  by (simp add: appendEntry_def sliceLast_def Let_def)

lemma length_appendEntry: "length (appendEntry prev e) = min MAX_EVENTS (length prev + 1)"
  by (simp add: appendEntry_sliceLast length_sliceLast)

lemma sliceLast_append_sliceLast:
  "sliceLast n (sliceLast n xs @ ys) = sliceLast n (xs @ ys)"
proof (cases "n \<le> length xs")
  case True
  then have "length xs + length ys - (length xs - n + n) + (length xs - n)
             = length xs + length ys - n"
    by simp
  with True show ?thesis by (simp add: sliceLast_def)
next
  case False
  then show ?thesis by (simp add: sliceLast_def)
qed

lemma foldl_appendEntry:
  "foldl appendEntry (sliceLast MAX_EVENTS buf) es = sliceLast MAX_EVENTS (buf @ es)"
proof (induction es arbitrary: buf)
  case Nil
  show ?case by simp
next
  case (Cons e es)
  have "foldl appendEntry (sliceLast MAX_EVENTS buf) (e # es)
        = foldl appendEntry (sliceLast MAX_EVENTS (buf @ [e])) es"
    by (simp add: appendEntry_sliceLast sliceLast_append_sliceLast)
  also have "\<dots> = sliceLast MAX_EVENTS ((buf @ [e]) @ es)"
    by (rule Cons.IH)
  finally show ?case by simp
qed

lemma step_events_bounded:
  "length (events s) \<le> MAX_EVENTS \<Longrightarrow> length (events (step a s)) \<le> MAX_EVENTS"
  by (cases a)
     (simp_all add: onAgentEventReceived_def clearEvents_def toggleExpanded_def
        toggleEventTypeFilter_def toggleFilterByRepo_def toggleAutoScroll_def
        length_appendEntry split: option.split)

lemma run_events_bounded:
  "length (events s) \<le> MAX_EVENTS \<Longrightarrow> length (events (run acts s)) \<le> MAX_EVENTS"
  by (induction acts arbitrary: s) (simp_all add: step_events_bounded)

lemma foldl_appendEntry_Nil:
  "foldl appendEntry [] es = drop (length es - MAX_EVENTS) es"
  using foldl_appendEntry [of "[]" es] by (simp add: sliceLast_def)

lemma set_appendEntry: "set (appendEntry prev e) \<subseteq> insert e (set prev)"
  by (auto simp: appendEntry_sliceLast sliceLast_def dest: in_set_dropD)

lemma sorted_appendEntry:
  assumes "sorted_wrt (<) (map localIndex prev)" "\<forall>x\<in>set prev. localIndex x < localIndex e"
  shows "sorted_wrt (<) (map localIndex (appendEntry prev e))"
proof -
  have "sorted_wrt (<) (map localIndex (prev @ [e]))"
    using assms by (simp add: sorted_wrt_append)
  then have "sorted_wrt (<) (drop (length (prev @ [e]) - MAX_EVENTS) (map localIndex (prev @ [e])))"
    by (rule sorted_wrt_drop)
  then show ?thesis
    by (simp only: appendEntry_sliceLast sliceLast_def drop_map)
qed

lemma step_countedBelow: "countedBelow s \<Longrightarrow> countedBelow (step a s)"
proof (cases a)
  case (Receive rp payload now)
  assume inv: "countedBelow s"
  show ?thesis
  proof (cases payload)
    case None
    with Receive inv show ?thesis by (simp add: onAgentEventReceived_def)
  next
    case (Some ev)
    show ?thesis
    proof (cases "droppedByRepoFilter rp ev s")
      case True
      with Receive Some inv show ?thesis by (simp add: onAgentEventReceived_def)
    next
      case False
      have a: "sorted_wrt (<) (map localIndex (appendEntry (events s) (newEntry s ev now)))"
        using inv by (intro sorted_appendEntry) (simp_all add: countedBelow_def newEntry_def)
      have b: "\<forall>x\<in>set (appendEntry (events s) (newEntry s ev now)). localIndex x < eventCounter s + 1"
        using inv set_appendEntry [of "events s" "newEntry s ev now"]
        by (auto simp: countedBelow_def newEntry_def less_Suc_eq)
      from a b Receive Some False show ?thesis
        by (simp add: onAgentEventReceived_def countedBelow_def)
    qed
  qed
qed (simp_all add: countedBelow_def clearEvents_def toggleExpanded_def
        toggleEventTypeFilter_def toggleFilterByRepo_def toggleAutoScroll_def)

lemma run_countedBelow: "countedBelow s \<Longrightarrow> countedBelow (run acts s)"
  by (induction acts arbitrary: s) (simp_all add: step_countedBelow)

lemma countedBelow_initial: "countedBelow initialPanelState"
  by (simp add: countedBelow_def initialPanelState_def)

lemma step_counter_mono: "eventCounter s \<le> eventCounter (step a s)"
  by (cases a)
     (simp_all add: onAgentEventReceived_def clearEvents_def toggleExpanded_def
        toggleEventTypeFilter_def toggleFilterByRepo_def toggleAutoScroll_def split: option.split)

lemma created_lower: "x \<in> set (created acts s) \<Longrightarrow> eventCounter s \<le> localIndex x"
proof (induction acts s rule: created.induct)
  case (1 s)
  then show ?case by simp
next
  case (2 rp ev now as s)
  show ?case
  proof (cases "droppedByRepoFilter rp ev s")
    case True
    with 2 show ?thesis by (simp add: onAgentEventReceived_def)
  next
    case False
    with 2 show ?thesis
      by (auto simp: onAgentEventReceived_def newEntry_def)
  qed
qed (auto simp: onAgentEventReceived_def clearEvents_def toggleExpanded_def
        toggleEventTypeFilter_def toggleFilterByRepo_def toggleAutoScroll_def)

lemma created_sorted: "sorted_wrt (<) (map localIndex (created acts s))"
proof (induction acts s rule: created.induct)
  case (2 rp ev now as s)
  show ?case
  proof (cases "droppedByRepoFilter rp ev s")
    case True
    with 2 show ?thesis by simp
  next
    case False
    have "\<forall>x\<in>set (created as (step (Receive rp (Some ev) now) s)). eventCounter s < localIndex x"
      using created_lower [of _ as "step (Receive rp (Some ev) now) s"] False
      by (fastforce simp: onAgentEventReceived_def)
    with 2 False show ?thesis by (simp add: newEntry_def)
  qed
qed simp_all

lemma events_subset_created:
  "set (events (run acts s)) \<subseteq> set (events s) \<union> set (created acts s)"
proof (induction acts s rule: created.induct)
  case (2 rp ev now as s)
  show ?case
  proof (cases "droppedByRepoFilter rp ev s")
    case True
    with 2 show ?thesis by (simp add: onAgentEventReceived_def)
  next
    case False
    with 2 set_appendEntry [of "events s" "newEntry s ev now"] show ?thesis
      by (auto simp: onAgentEventReceived_def)
  qed
qed (auto simp: onAgentEventReceived_def clearEvents_def toggleExpanded_def
        toggleEventTypeFilter_def toggleFilterByRepo_def toggleAutoScroll_def)


lemma not_dropped_unscoped: "\<not> droppedByRepoFilter None agentEvent s"
  by (simp add: droppedByRepoFilter_def truthy_def)

lemma run_receipts:
  "events (run (receipts xs) s) = foldl appendEntry (events s) (created (receipts xs) s)"
proof (induction xs arbitrary: s)
  case Nil
  show ?case by (simp add: receipts_def)
next
  case (Cons x xs)
  obtain agentEvent now where x: "x = (agentEvent, now)" by (cases x)
  let ?s' = "onAgentEventReceived None (Some agentEvent) now s"
  have "events (run (receipts (x # xs)) s) = events (run (receipts xs) ?s')"
    by (simp add: receipts_def x)
  also have "\<dots> = foldl appendEntry (events ?s') (created (receipts xs) ?s')"
    by (rule Cons.IH)
  also have "events ?s' = appendEntry (events s) (newEntry s agentEvent now)"
    by (simp add: onAgentEventReceived_def not_dropped_unscoped)
  finally show ?case
    by (simp add: receipts_def x not_dropped_unscoped)
qed

lemma created_receipts_event: "map event (created (receipts xs) s) = map fst xs"
proof (induction xs arbitrary: s)
  case Nil
  show ?case by (simp add: receipts_def)
next
  case (Cons x xs)
  obtain agentEvent now where x: "x = (agentEvent, now)" by (cases x)
  from Cons.IH [of "onAgentEventReceived None (Some agentEvent) now s"] show ?case
    by (simp add: receipts_def x not_dropped_unscoped newEntry_def)
qed

lemma created_receipts_localIndex:
  "map localIndex (created (receipts xs) s) = [eventCounter s ..< eventCounter s + length xs]"
proof (induction xs arbitrary: s)
  case Nil
  show ?case by (simp add: receipts_def)
next
  case (Cons x xs)
  obtain agentEvent now where x: "x = (agentEvent, now)" by (cases x)
  let ?s' = "onAgentEventReceived None (Some agentEvent) now s"
  have c: "eventCounter ?s' = Suc (eventCounter s)"
    by (simp add: onAgentEventReceived_def not_dropped_unscoped)
  have "eventCounter s < eventCounter s + length (x # xs)"
    by simp
  then have "[eventCounter s ..< eventCounter s + length (x # xs)]
          = eventCounter s # [Suc (eventCounter s) ..< Suc (eventCounter s) + length xs]"
    by (simp only: upt_conv_Cons) simp
  moreover have "map localIndex (created (receipts (x # xs)) s)
          = eventCounter s # map localIndex (created (receipts xs) ?s')"
    by (simp add: receipts_def x not_dropped_unscoped newEntry_def)
  ultimately show ?case
    using Cons.IH [of ?s'] by (simp only: c)
qed

lemma events_after_receipts:
  "events (run (receipts xs) initialPanelState)
     = drop (length xs - MAX_EVENTS) (created (receipts xs) initialPanelState)"
proof -
  have "length (created (receipts xs) initialPanelState) = length xs"
    using created_receipts_event [of xs initialPanelState]
    by (metis length_map)
  then show ?thesis
    by (simp add: run_receipts initialPanelState_def foldl_appendEntry_Nil)
qed

lemma run_created:
  "ClearEvents \<notin> set acts \<Longrightarrow>
   events (run acts s) = foldl appendEntry (events s) (created acts s)"
proof (induction acts s rule: created.induct)
  case (2 rp ev now as s)
  then show ?case
    by (cases "droppedByRepoFilter rp ev s") (simp_all add: onAgentEventReceived_def)
qed (simp_all add: onAgentEventReceived_def toggleExpanded_def
        toggleEventTypeFilter_def toggleFilterByRepo_def toggleAutoScroll_def)

text \<open>
  The example of the specification: after 501 events, numbered 0 to 500 by the counter,
  the buffer holds those numbered 1 to 500.
\<close>

lemma eviction_example:
  "map localIndex (events (run (receipts (replicate 501 (agentEvent, now))) initialPanelState))
   = [1 ..< 501]"
proof -
  have "eventCounter initialPanelState = 0"
    by (simp add: initialPanelState_def)
  then have "map localIndex (events (run (receipts (replicate 501 (agentEvent, now))) initialPanelState))
      = drop (501 - MAX_EVENTS) [0 ..< 501]"
    by (simp only: events_after_receipts drop_map [symmetric] created_receipts_localIndex
          add_0 length_replicate)
  then show ?thesis
    by (simp add: MAX_EVENTS_def)
qed

text \<open>
  Claim C1. Appending to the buffer never leaves more than \<open>MAX_EVENTS = 500\<close> entries,
  whatever the buffer was; appending the entries \<open>es\<close> one after the other to the empty
  buffer leaves exactly the last 500 of them (all of them when there are fewer), in the
  order of receipt, so the oldest go first. The same holds of the panel: along every run
  from its initial state the buffer has at most 500 entries; as long as it is not cleared
  it holds the last 500 of the entries built, which are the events that passed the
  repository gate; and after the receipt of the events \<open>xs\<close> with no repository scoped it
  holds the last 500 of them, numbered by their position in \<open>xs\<close>.
\<close>

theorem events_buffer_keeps_last_500:
  "length (appendEntry prev e) \<le> MAX_EVENTS
   \<and> foldl appendEntry [] es = drop (length es - MAX_EVENTS) es
   \<and> length (foldl appendEntry [] es) = min MAX_EVENTS (length es)
   \<and> length (events (run acts initialPanelState)) \<le> MAX_EVENTS
   \<and> (ClearEvents \<notin> set acts \<longrightarrow>
        events (run acts initialPanelState)
        = drop (length (created acts initialPanelState) - MAX_EVENTS)
            (created acts initialPanelState))
   \<and> map event (events (run (receipts xs) initialPanelState))
       = drop (length xs - MAX_EVENTS) (map fst xs)
   \<and> map localIndex (events (run (receipts xs) initialPanelState))
       = drop (length xs - MAX_EVENTS) [0 ..< length xs]"
proof (intro conjI impI)
  show "length (appendEntry prev e) \<le> MAX_EVENTS"
    by (simp add: length_appendEntry)
  show "foldl appendEntry [] es = drop (length es - MAX_EVENTS) es"
    by (rule foldl_appendEntry_Nil)
  then show "length (foldl appendEntry [] es) = min MAX_EVENTS (length es)"
    by simp
  show "length (events (run acts initialPanelState)) \<le> MAX_EVENTS"
    by (rule run_events_bounded) (simp add: initialPanelState_def)
  show "map event (events (run (receipts xs) initialPanelState))
          = drop (length xs - MAX_EVENTS) (map fst xs)"
    by (simp only: events_after_receipts drop_map [symmetric] created_receipts_event)
  have "eventCounter initialPanelState = 0"
    by (simp add: initialPanelState_def)
  then show "map localIndex (events (run (receipts xs) initialPanelState))
          = drop (length xs - MAX_EVENTS) [0 ..< length xs]"
    by (simp only: events_after_receipts drop_map [symmetric] created_receipts_localIndex add_0)
next
  assume "ClearEvents \<notin> set acts"
  then have "events (run acts initialPanelState)
             = foldl appendEntry [] (created acts initialPanelState)"
    by (simp add: run_created initialPanelState_def)
  then show "events (run acts initialPanelState)
        = drop (length (created acts initialPanelState) - MAX_EVENTS)
            (created acts initialPanelState)"
    by (simp only: foldl_appendEntry_Nil)
qed

text \<open>
  With \<open>/repo\<close> scoped, an event of \<open>/other\<close> arrives and is dropped; the filter is
  switched off and the event arrives again: the buffer holds this one entry, numbered 0.
\<close>

theorem events_buffer_keeps_last_500_witness:
  "events (run [Receive (Some ''/repo'') (Some otherRepoEvent) 1, ToggleFilterByRepo,
                Receive (Some ''/repo'') (Some otherRepoEvent) 2] initialPanelState)
   = [\<lparr>event = otherRepoEvent, timestamp = 2, localIndex = 0\<rparr>]
   \<and> created [Receive (Some ''/repo'') (Some otherRepoEvent) 1, ToggleFilterByRepo,
               Receive (Some ''/repo'') (Some otherRepoEvent) 2] initialPanelState
   = [\<lparr>event = otherRepoEvent, timestamp = 2, localIndex = 0\<rparr>]"
proof -
  let ?acts = "[Receive (Some ''/repo'') (Some otherRepoEvent) 1, ToggleFilterByRepo,
                Receive (Some ''/repo'') (Some otherRepoEvent) 2]"
  have c: "created ?acts initialPanelState
           = [\<lparr>event = otherRepoEvent, timestamp = 2, localIndex = 0\<rparr>]"
    by (simp add: initialPanelState_def onAgentEventReceived_def droppedByRepoFilter_def
          toggleFilterByRepo_def truthy_def eventRepoPath_def orElse_def otherRepoEvent_def
          newEntry_def)
  have n: "ClearEvents \<notin> set ?acts"
    by simp
  have "events (run ?acts initialPanelState)
        = drop (length (created ?acts initialPanelState) - MAX_EVENTS)
            (created ?acts initialPanelState)"
    using events_buffer_keeps_last_500
      [of "[]" "newEntry initialPanelState otherRepoEvent 0" "[]" ?acts "[]"] n
    by blast
  then have "events (run ?acts initialPanelState)
        = [\<lparr>event = otherRepoEvent, timestamp = 2, localIndex = 0\<rparr>]"
    by (simp only: c) (simp add: MAX_EVENTS_def)
  with c show ?thesis
    by (simp only: simp_thms)
qed

text \<open>
  Claim C4. Along every run of the panel (receipts, dropped or not, clears and every
  other control, in any order) the \<open>localIndex\<close> values in the buffer are strictly
  increasing, and so are those of all the entries ever built, cleared and evicted ones
  included: no value is used twice. Every buffered entry is one of the entries built.
  The value given to a new entry is the counter: it is the same for any two payloads and
  clock values. Clearing leaves the counter as it is, and the entries built after a clear
  are numbered from there.
\<close>

theorem localIndex_strictly_increasing_never_reused:
  "sorted_wrt (<) (map localIndex (events (run acts initialPanelState)))
   \<and> sorted_wrt (<) (map localIndex (created acts initialPanelState))
   \<and> set (events (run acts initialPanelState)) \<subseteq> set (created acts initialPanelState)
   \<and> localIndex (newEntry s agentEvent1 now1) = localIndex (newEntry s agentEvent2 now2)
   \<and> eventCounter (clearEvents s) = eventCounter s
   \<and> created (ClearEvents # acts) s = created acts (clearEvents s)"
proof (intro conjI)
  have "countedBelow (run acts initialPanelState)"
    by (intro run_countedBelow countedBelow_initial)
  then show "sorted_wrt (<) (map localIndex (events (run acts initialPanelState)))"
    by (simp add: countedBelow_def)
  show "sorted_wrt (<) (map localIndex (created acts initialPanelState))"
    by (rule created_sorted)
  show "set (events (run acts initialPanelState)) \<subseteq> set (created acts initialPanelState)"
    using events_subset_created [of acts initialPanelState]
    by (simp add: initialPanelState_def)
  show "localIndex (newEntry s agentEvent1 now1) = localIndex (newEntry s agentEvent2 now2)"
    by (simp add: newEntry_def)
  show "eventCounter (clearEvents s) = eventCounter s"
    by (simp add: clearEvents_def)
  show "created (ClearEvents # acts) s = created acts (clearEvents s)"
    by simp
qed

text \<open>
  Claim C8. One toggle of \<open>n\<close> changes the membership of \<open>n\<close> in the expansion set and of
  nothing else: \<open>n\<close> is removed when present and inserted when absent. Two toggles of \<open>n\<close>
  give back the set, and the panel state, they started from.
\<close>

theorem toggleExpanded_twice:
  "toggleIn n (toggleIn n S) = S
   \<and> (n \<in> toggleIn n S) = (n \<notin> S)
   \<and> toggleIn n S - {n} = S - {n}
   \<and> expandedEvents (toggleExpanded n s) = toggleIn n (expandedEvents s)
   \<and> toggleExpanded n (toggleExpanded n s) = s"
proof -
  have twice: "toggleIn x (toggleIn x A) = A" for x :: 'b and A
    by (auto simp: toggleIn_def)
  have "(n \<in> toggleIn n S) = (n \<notin> S)" and "toggleIn n S - {n} = S - {n}"
    by (auto simp: toggleIn_def)
  then show ?thesis
    by (simp add: twice toggleExpanded_def)
qed

text \<open>
  Claim C10. With the repository filter on and a (non-empty) repository path \<open>p\<close> scoped,
  an event whose \<open>repository.root\<close>, or whose \<open>workingDirectory\<close> when the root is missing
  or empty, is not \<open>p\<close> leaves the whole panel state as it was. The buffer does not hold
  it, so the list shown after the filter is switched off is the one that would be shown
  had the event never arrived, and so is every later state.
\<close>

theorem foreign_repository_event_dropped:
  assumes "filterByRepo s" and "p \<noteq> []" and "eventRepoPath agentEvent \<noteq> Some p"
  shows "onAgentEventReceived (Some p) (Some agentEvent) now s = s
         \<and> events (toggleFilterByRepo (onAgentEventReceived (Some p) (Some agentEvent) now s))
             = events s
         \<and> filteredEvents (toggleFilterByRepo (onAgentEventReceived (Some p) (Some agentEvent) now s))
             = filteredEvents s
         \<and> run acts (onAgentEventReceived (Some p) (Some agentEvent) now s) = run acts s"
proof -
  have "droppedByRepoFilter (Some p) agentEvent s"
    using assms by (simp add: droppedByRepoFilter_def truthy_def)
  then have same: "onAgentEventReceived (Some p) (Some agentEvent) now s = s"
    by (simp add: onAgentEventReceived_def)
  show ?thesis
    by (simp add: same toggleFilterByRepo_def filteredEvents_def)
qed

text \<open>An event from \<open>/other\<close> while \<open>/repo\<close> is scoped.\<close>

theorem foreign_repository_event_dropped_witness:
  "filterByRepo initialPanelState \<and> ''/repo'' \<noteq> []
   \<and> eventRepoPath otherRepoEvent \<noteq> Some ''/repo''
   \<and> onAgentEventReceived (Some ''/repo'') (Some otherRepoEvent) 1700000000000 initialPanelState
       = initialPanelState"
  using foreign_repository_event_dropped [of initialPanelState "''/repo''" otherRepoEvent 1700000000000 "[]"]
  by (simp add: initialPanelState_def otherRepoEvent_def eventRepoPath_def orElse_def truthy_def)

section \<open>Properties of the colour helper and of the session card\<close>

lemma jsRem_nonneg: "0 \<le> a \<Longrightarrow> 0 < b \<Longrightarrow> jsRem a b = a mod b"
  by (cases "a = 0") (simp_all add: jsRem_def)

lemma length_SESSION_COLORS: "length SESSION_COLORS = 8"
  by (simp add: SESSION_COLORS_def)

text \<open>
  Claim C9. \<open>getSessionColor\<close> is a function of the index alone. For every index
  \<open>i \<ge> 0\<close> it returns the entry of the eight-colour palette at position \<open>i mod 8\<close>, and
  the index \<open>i + 8\<close> gets the colour of \<open>i\<close>.
\<close>

theorem getSessionColor_periodic:
  assumes "0 \<le> i"
  shows "getSessionColor i = Some (SESSION_COLORS ! nat (i mod 8))
         \<and> length SESSION_COLORS = 8
         \<and> getSessionColor (i + 8) = getSessionColor i"
proof -
  have r: "jsRem j 8 = j mod 8" if "0 \<le> j" for j
    using that by (simp add: jsRem_nonneg)
  have g: "getSessionColor j = Some (SESSION_COLORS ! nat (j mod 8))" if "0 \<le> j" for j
    using that by (simp add: getSessionColor_def length_SESSION_COLORS r arrayGet_def)
  from assms have "getSessionColor (i + 8) = Some (SESSION_COLORS ! nat ((i + 8) mod 8))"
    by (intro g) simp
  with assms g [of i] show ?thesis
    by (simp add: length_SESSION_COLORS)
qed

text \<open>Index 11 and index 19 both get the fourth colour.\<close>

theorem getSessionColor_periodic_witness:
  "(0::int) \<le> 11 \<and> getSessionColor 11 = Some ''#f59e0b'' \<and> getSessionColor 19 = Some ''#f59e0b''"
  using getSessionColor_periodic [of 11] by (simp add: SESSION_COLORS_def)

lemma arrayFind_None: "arrayFind p xs = None \<longleftrightarrow> (\<forall>x\<in>set xs. \<not> p x)"
  by (induction xs) auto

lemma arrayFind_first: "p t \<Longrightarrow> \<forall>x\<in>set pre. \<not> p x \<Longrightarrow> arrayFind p (pre @ t # post) = Some t"
  by (induction pre) auto

lemma arrayGet_last: "xs \<noteq> [] \<Longrightarrow> arrayGet xs (int (length xs) - 1) = Some (last xs)"
  by (cases xs rule: rev_cases) (simp_all add: arrayGet_def nth_append)

lemma arrayGet_Nil: "arrayGet [] i = None"
  by (simp add: arrayGet_def)

lemma filter_first: "p t \<Longrightarrow> \<forall>x\<in>set pre. \<not> p x \<Longrightarrow> hd (filter p (pre @ t # post)) = t \<and> filter p (pre @ t # post) \<noteq> []"
  by (induction pre) auto

text \<open>
  Claim C7. For a list of todos: when an item is in progress, the first such item is
  shown; otherwise, when an item is pending, the first pending item; otherwise every item
  is completed and the last completed item of the list is shown (the most recent one, the
  list being in the order the host supplies). A non-empty list always shows an item; an
  empty or missing list shows none.
\<close>

theorem getTodoToShow_selection:
  "(todoStatus t1 = in_progress \<and> in_progress \<notin> todoStatus ` set pre1
      \<longrightarrow> getTodoToShow (Some (pre1 @ t1 # post1)) = Some t1)
   \<and> (in_progress \<notin> todoStatus ` set (pre2 @ t2 # post2)
        \<and> todoStatus t2 = pending \<and> pending \<notin> todoStatus ` set pre2
      \<longrightarrow> getTodoToShow (Some (pre2 @ t2 # post2)) = Some t2)
   \<and> (ts \<noteq> [] \<and> in_progress \<notin> todoStatus ` set ts \<and> pending \<notin> todoStatus ` set ts
      \<longrightarrow> getTodoToShow (Some ts) = Some (last (filter (\<lambda>t. todoStatus t = completed) ts))
          \<and> filter (\<lambda>t. todoStatus t = completed) ts = ts)
   \<and> (us \<noteq> [] \<longrightarrow> getTodoToShow (Some us) \<noteq> None)
   \<and> getTodoToShow (Some []) = None
   \<and> getTodoToShow None = None"
proof (intro conjI impI)
  assume "todoStatus t1 = in_progress \<and> in_progress \<notin> todoStatus ` set pre1"
  then have "arrayFind (\<lambda>t. todoStatus t = in_progress) (pre1 @ t1 # post1) = Some t1"
    by (intro arrayFind_first) (auto simp: image_iff)
  then show "getTodoToShow (Some (pre1 @ t1 # post1)) = Some t1"
    by (simp add: getTodoToShow_def hasTodos_def)
next
  assume a: "in_progress \<notin> todoStatus ` set (pre2 @ t2 # post2)
        \<and> todoStatus t2 = pending \<and> pending \<notin> todoStatus ` set pre2"
  then have "arrayFind (\<lambda>t. todoStatus t = in_progress) (pre2 @ t2 # post2) = None"
    unfolding arrayFind_None by force
  moreover from a have "hd (filter (\<lambda>t. todoStatus t = pending) (pre2 @ t2 # post2)) = t2
      \<and> filter (\<lambda>t. todoStatus t = pending) (pre2 @ t2 # post2) \<noteq> []"
    by (intro filter_first) (auto simp: image_iff)
  ultimately show "getTodoToShow (Some (pre2 @ t2 # post2)) = Some t2"
    by (simp add: getTodoToShow_def hasTodos_def Let_def)
next
  assume a: "ts \<noteq> [] \<and> in_progress \<notin> todoStatus ` set ts \<and> pending \<notin> todoStatus ` set ts"
  have all: "todoStatus x = completed" if "x \<in> set ts" for x
    using a that by (cases "todoStatus x") force+
  then have c: "filter (\<lambda>t. todoStatus t = completed) ts = ts"
    by (simp add: filter_id_conv)
  from a have "arrayFind (\<lambda>t. todoStatus t = in_progress) ts = None"
    unfolding arrayFind_None by force
  moreover from a have "filter (\<lambda>t. todoStatus t = pending) ts = []"
    by (force simp: filter_empty_conv)
  ultimately have "getTodoToShow (Some ts) = Some (last ts)"
    using a by (simp add: getTodoToShow_def hasTodos_def Let_def c arrayGet_last)
  with c show "getTodoToShow (Some ts) = Some (last (filter (\<lambda>t. todoStatus t = completed) ts))"
    by simp
  from c show "filter (\<lambda>t. todoStatus t = completed) ts = ts" .
next
  assume ne: "us \<noteq> []"
  show "getTodoToShow (Some us) \<noteq> None"
  proof (cases "arrayFind (\<lambda>t. todoStatus t = in_progress) us")
    case (Some t)
    with ne show ?thesis by (simp add: getTodoToShow_def hasTodos_def)
  next
    case None
    show ?thesis
    proof (cases "filter (\<lambda>t. todoStatus t = pending) us = []")
      case False
      with None ne show ?thesis by (simp add: getTodoToShow_def hasTodos_def Let_def)
    next
      case True
      have "todoStatus x = completed" if "x \<in> set us" for x
        using None True that unfolding arrayFind_None filter_empty_conv
        by (cases "todoStatus x") auto
      then have "filter (\<lambda>t. todoStatus t = completed) us = us"
        by (simp add: filter_id_conv)
      with None True ne show ?thesis
        by (simp add: getTodoToShow_def hasTodos_def Let_def arrayGet_last)
    qed
  qed
next
  show "getTodoToShow (Some []) = None"
    by (simp add: getTodoToShow_def hasTodos_def)
  show "getTodoToShow None = None"
    by (simp add: getTodoToShow_def)
qed


text \<open>
  One list with two items in progress, one with none in progress and two pending, one
  with completed items only (the one shown is the last, not the one with the latest
  timestamp).
\<close>

theorem getTodoToShow_selection_witness:
  "getTodoToShow (Some [todo ''a'' completed 1, todo ''b'' in_progress 2, todo ''c'' in_progress 3, todo ''d'' pending 4])
     = Some (todo ''b'' in_progress 2)
   \<and> getTodoToShow (Some [todo ''a'' completed 1, todo ''b'' pending 2, todo ''c'' pending 3])
     = Some (todo ''b'' pending 2)
   \<and> getTodoToShow (Some [todo ''a'' completed 9, todo ''b'' completed 2])
     = Some (todo ''b'' completed 2)
   \<and> getTodoToShow (Some [todo ''a'' completed 9]) \<noteq> None"
  using getTodoToShow_selection
    [of "todo ''b'' in_progress 2" "[todo ''a'' completed 1]"
        "[todo ''c'' in_progress 3, todo ''d'' pending 4]"
        "[todo ''a'' completed 1]" "todo ''b'' pending 2" "[todo ''c'' pending 3]"
        "[todo ''a'' completed 9, todo ''b'' completed 2]"
        "[todo ''a'' completed 9]"]
  by (simp add: todo_def)

section \<open>Properties of the sessions panel: directory normalization\<close>

lemma slash_neq_backslash: "slash \<noteq> backslash"
  by (simp add: slash_def backslash_def)

lemma replaceBackslashes_no_backslash: "backslash \<notin> set (replaceBackslashes s)"
  using slash_neq_backslash by (auto simp: replaceBackslashes_def)

lemma set_stripTrailingSlashes: "set (stripTrailingSlashes s) \<subseteq> set s"
  using set_dropWhileD [of _ "\<lambda>c. c = slash" "rev s"] by (auto simp: stripTrailingSlashes_def)

lemma last_stripTrailingSlashes:
  "stripTrailingSlashes s \<noteq> [] \<Longrightarrow> last (stripTrailingSlashes s) \<noteq> slash"
  using hd_dropWhile [of "\<lambda>c. c = slash" "rev s"]
  by (simp add: stripTrailingSlashes_def last_rev)

lemma stripTrailingSlashes_Nil_iff:
  "stripTrailingSlashes s = [] \<longleftrightarrow> (\<forall>c\<in>set s. c = slash)"
  by (simp add: stripTrailingSlashes_def)

lemma stripTrailingSlashes_append_slashes:
  "\<forall>c\<in>set r. c = slash \<Longrightarrow> stripTrailingSlashes (s @ r) = stripTrailingSlashes s"
  by (simp add: stripTrailingSlashes_def dropWhile_append)

lemma replaceBackslashes_separators:
  "\<forall>c\<in>set r. isSeparator c \<Longrightarrow> \<forall>c\<in>set (replaceBackslashes r). c = slash"
  by (auto simp: replaceBackslashes_def isSeparator_def)

lemma replaceBackslashes_same:
  "sameUpToSeparators d d' \<Longrightarrow> replaceBackslashes d = replaceBackslashes d'"
  unfolding sameUpToSeparators_def
  by (induction d d' rule: list_all2_induct)
     (auto simp: replaceBackslashes_def isSeparator_def)

lemma replaceBackslashes_append:
  "replaceBackslashes (a @ b) = replaceBackslashes a @ replaceBackslashes b"
  by (simp add: replaceBackslashes_def)

lemma nonSeparator_kept:
  assumes "\<exists>c\<in>set d. \<not> isSeparator c"
  shows "stripTrailingSlashes (replaceBackslashes d) \<noteq> []"
proof -
  from assms obtain c where "c \<in> set d" "c \<noteq> slash" "c \<noteq> backslash"
    by (auto simp: isSeparator_def)
  then have "c \<in> set (replaceBackslashes d)"
    by (force simp: replaceBackslashes_def)
  with \<open>c \<noteq> slash\<close> show ?thesis
    by (auto simp: stripTrailingSlashes_Nil_iff)
qed

lemma normalizePath_nonSeparator:
  "\<exists>c\<in>set d. \<not> isSeparator c \<Longrightarrow> normalizePath d = stripTrailingSlashes (replaceBackslashes d)"
  using nonSeparator_kept [of d] by (simp add: normalizePath_def Let_def)

lemma normalizePath_separators_only:
  assumes "\<forall>c\<in>set d. isSeparator c"
  shows "normalizePath d = d"
proof -
  have "stripTrailingSlashes (replaceBackslashes d) = []"
    using replaceBackslashes_separators [OF assms] by (simp add: stripTrailingSlashes_Nil_iff)
  then show ?thesis by (simp add: normalizePath_def)
qed

lemma filter_dropWhile_irrelevant:
  "(\<And>x. P x \<Longrightarrow> \<not> Q x) \<Longrightarrow> filter Q (dropWhile P xs) = filter Q xs"
  by (induction xs) auto

lemma nonSeparators_stripTrailingSlashes:
  "filter (\<lambda>c. \<not> isSeparator c) (stripTrailingSlashes s) = filter (\<lambda>c. \<not> isSeparator c) s"
proof -
  have "filter (\<lambda>c. \<not> isSeparator c) (dropWhile (\<lambda>c. c = slash) (rev s))
        = filter (\<lambda>c. \<not> isSeparator c) (rev s)"
    by (rule filter_dropWhile_irrelevant) (simp add: isSeparator_def)
  then show ?thesis
    by (simp add: stripTrailingSlashes_def rev_filter [symmetric])
qed

lemma nonSeparators_replaceBackslashes:
  "filter (\<lambda>c. \<not> isSeparator c) (replaceBackslashes s) = filter (\<lambda>c. \<not> isSeparator c) s"
  by (induction s) (auto simp: replaceBackslashes_def isSeparator_def)

lemma nonSeparators_normalizePath:
  "filter (\<lambda>c. \<not> isSeparator c) (normalizePath d) = filter (\<lambda>c. \<not> isSeparator c) d"
  by (simp add: normalizePath_def Let_def nonSeparators_stripTrailingSlashes
        nonSeparators_replaceBackslashes)

text \<open>
  Claim C6 as stated fails at the root directory: nothing would remain of \<open>/\<close> after the
  trailing separators are removed, and the expression falls back to the directory as it
  was given. The result then ends with a separator, \<open>/\<close> and \<open>//\<close> get different keys,
  and a lone backslash is not even turned into a slash.
\<close>

theorem normalizePath_root_counterexample:
  "''/'' \<noteq> [] \<and> normalizePath ''/'' = ''/'' \<and> last (normalizePath ''/'') = slash
   \<and> normalizePath ''//'' = ''//'' \<and> normalizePath ''//'' \<noteq> normalizePath ''/''
   \<and> normalizePath [backslash] = [backslash] \<and> normalizePath [backslash] \<noteq> normalizePath [slash]"
  by (simp add: normalizePath_def stripTrailingSlashes_def replaceBackslashes_def
        slash_def backslash_def)

lemma normalizePath_UNKNOWN: "normalizePath UNKNOWN_DIRECTORY_LABEL = UNKNOWN_DIRECTORY_LABEL"
  by (simp add: UNKNOWN_DIRECTORY_LABEL_def normalizePath_def stripTrailingSlashes_def
        replaceBackslashes_def slash_def backslash_def)

text \<open>
  Claim C6, amended. For a directory with at least one character that is not a separator:
  the normalized directory is the directory with every backslash turned into a slash and
  the trailing slashes removed; it is not empty, does not end with a separator and has no
  backslash; a directory that differs from it only in the separators used and in
  separators added at the end has the same normalized directory. Characters other than
  separators are never changed, so directories whose normalized forms are equal agree on
  them exactly, letter case included. This is the key of a session's group, and the
  normalized repository path.
\<close>

theorem normalizePath_amended:
  assumes "\<exists>c\<in>set d. \<not> isSeparator c"
  shows "normalizePath d = stripTrailingSlashes (replaceBackslashes d)
     \<and> normalizePath d \<noteq> []
     \<and> \<not> isSeparator (last (normalizePath d))
     \<and> backslash \<notin> set (normalizePath d)
     \<and> (sameUpToSeparators d d' \<and> (\<forall>c\<in>set seps. isSeparator c)
          \<longrightarrow> normalizePath (d' @ seps) = normalizePath d)
     \<and> (normalizePath d = normalizePath d2
          \<longrightarrow> filter (\<lambda>c. \<not> isSeparator c) d = filter (\<lambda>c. \<not> isSeparator c) d2)
     \<and> normalizedKey s = normalizePath (rawDirectory s)
     \<and> normalizedRepositoryPath (Some d) = Some (normalizePath d)"
proof -
  have n: "normalizePath d = stripTrailingSlashes (replaceBackslashes d)"
    using assms by (rule normalizePath_nonSeparator)
  have ne: "normalizePath d \<noteq> []"
    using assms by (simp add: n nonSeparator_kept)
  have nb: "backslash \<notin> set (normalizePath d)"
    using set_stripTrailingSlashes [of "replaceBackslashes d"]
      replaceBackslashes_no_backslash [of d]
    by (auto simp: n)
  have "last (normalizePath d) \<noteq> slash"
    using ne by (simp add: n last_stripTrailingSlashes)
  moreover have "last (normalizePath d) \<noteq> backslash"
    using nb ne last_in_set by metis
  ultimately have nl: "\<not> isSeparator (last (normalizePath d))"
    by (simp add: isSeparator_def)
  have same: "normalizePath (d' @ seps) = normalizePath d"
    if h: "sameUpToSeparators d d' \<and> (\<forall>c\<in>set seps. isSeparator c)"
  proof -
    from h have r: "replaceBackslashes d' = replaceBackslashes d"
      using replaceBackslashes_same [of d d'] by simp
    have "\<exists>c\<in>set d'. \<not> isSeparator c"
    proof -
      from assms obtain i where i: "i < length d" "\<not> isSeparator (d ! i)"
        by (auto simp: in_set_conv_nth)
      from h have "length d = length d'" "d ! i = d' ! i \<or> isSeparator (d ! i) \<and> isSeparator (d' ! i)"
        using i by (auto simp: sameUpToSeparators_def list_all2_conv_all_nth)
      with i show ?thesis
        by (metis nth_mem)
    qed
    then have "\<exists>c\<in>set (d' @ seps). \<not> isSeparator c"
      by auto
    then have "normalizePath (d' @ seps)
               = stripTrailingSlashes (replaceBackslashes d' @ replaceBackslashes seps)"
      by (simp add: normalizePath_nonSeparator replaceBackslashes_append)
    also have "\<dots> = stripTrailingSlashes (replaceBackslashes d')"
      using h by (intro stripTrailingSlashes_append_slashes replaceBackslashes_separators) simp
    finally show ?thesis
      by (simp add: r n)
  qed
  have cs: "filter (\<lambda>c. \<not> isSeparator c) d = filter (\<lambda>c. \<not> isSeparator c) d2"
    if "normalizePath d = normalizePath d2"
    using that nonSeparators_normalizePath [of d] nonSeparators_normalizePath [of d2]
    by simp
  have k: "normalizedKey s = normalizePath (rawDirectory s)"
    by (simp add: normalizedKey_def normalizePath_UNKNOWN)
  have "d \<noteq> []"
    using assms by auto
  then have rp: "normalizedRepositoryPath (Some d) = Some (normalizePath d)"
    by (simp add: normalizedRepositoryPath_def)
  from n ne nl nb same cs k rp show ?thesis
    by blast
qed

text \<open>
  The Windows path, \<open>C:/r/\<close> and \<open>C:/r/\<close> followed by a slash, a backslash and a
  slash all have the key \<open>C:/r\<close>; \<open>C:/R//\<close> has another one.
\<close>

theorem normalizePath_amended_witness:
  "normalizePath windowsPath = ''C:/r''
   \<and> normalizePath (''C:/r/'' @ [slash, backslash, slash]) = ''C:/r''
   \<and> normalizePath ''C:/R//'' \<noteq> normalizePath windowsPath"
proof -
  have 1: "\<exists>c\<in>set windowsPath. \<not> isSeparator c"
    by (simp add: windowsPath_def isSeparator_def slash_def backslash_def)
  have 2: "sameUpToSeparators windowsPath ''C:/r/'' \<and> (\<forall>c\<in>set [slash, backslash, slash]. isSeparator c)"
    by (simp add: windowsPath_def sameUpToSeparators_def isSeparator_def slash_def backslash_def)
  have 3: "filter (\<lambda>c. \<not> isSeparator c) windowsPath \<noteq> filter (\<lambda>c. \<not> isSeparator c) ''C:/R//''"
    by (simp add: windowsPath_def isSeparator_def slash_def backslash_def)
  have 4: "stripTrailingSlashes (replaceBackslashes windowsPath) = ''C:/r''"
    by (simp add: windowsPath_def stripTrailingSlashes_def replaceBackslashes_def
          slash_def backslash_def)
  from normalizePath_amended [OF 1, of "''C:/r/''" "[slash, backslash, slash]" "''C:/R//''"
      "mkSession ''a'' ''/repo'' ''/repo'' active"] 2 3 4
  show ?thesis
    by (simp del: filter.simps) metis
qed

section \<open>Properties of the sessions panel: the free-text filter\<close>

lemma stringIncludes_sublist: "stringIncludes s q \<longleftrightarrow> sublist q s"
  by (induction s) (simp_all add: sublist_Cons_right)

lemma filterBoolean_comprehension: "filterBoolean xs = [x. Some x \<leftarrow> xs, x \<noteq> []]"
  by (induction xs rule: filterBoolean.induct) simp_all

text \<open>\<open>lowerChar\<close> adds 32 to the code of a capital letter and changes no other character.\<close>

lemma bit5_value:
  "(of_char (Char b0 b1 b2 b3 b4 True b6 b7) :: nat)
   = of_char (Char b0 b1 b2 b3 b4 False b6 b7) + 32"
  by simp

lemma lowbits:
  "(of_bool b0 + 2 * of_bool b1 + 4 * of_bool b2 + 8 * of_bool b3 + 16 * of_bool b4 :: nat) \<le> 31"
  by (cases b0; cases b1; cases b2; cases b3; cases b4) simp_all

lemma bit5_set_value:
  "\<exists>r k. r \<le> 31 \<and> k \<le> 3
     \<and> (of_char (Char b0 b1 b2 b3 b4 True b6 b7) :: nat) = r + 32 + 64 * k"
proof (intro exI conjI)
  show "(of_bool b0 + 2 * of_bool b1 + 4 * of_bool b2 + 8 * of_bool b3 + 16 * of_bool b4 :: nat) \<le> 31"
    by (rule lowbits)
  show "(of_bool b6 + 2 * of_bool b7 :: nat) \<le> 3"
    by (cases b6; cases b7) simp_all
  show "(of_char (Char b0 b1 b2 b3 b4 True b6 b7) :: nat)
        = (of_bool b0 + 2 * of_bool b1 + 4 * of_bool b2 + 8 * of_bool b3 + 16 * of_bool b4) + 32
          + 64 * (of_bool b6 + 2 * of_bool b7)"
    by simp
qed

lemma not_capital:
  assumes "r \<le> 31" and "k \<le> 3" and "(n::nat) = r + 32 + 64 * k"
  shows "\<not> (65 \<le> n \<and> n \<le> 90 \<or> 192 \<le> n \<and> n \<le> 222)"
  using assms by arith

lemma lowerChar_value:
  "of_char (lowerChar c)
   = (if 65 \<le> (of_char c :: nat) \<and> (of_char c :: nat) \<le> 90
         \<or> 192 \<le> (of_char c :: nat) \<and> (of_char c :: nat) \<le> 222
           \<and> (of_char c :: nat) \<noteq> 215
      then of_char c + 32 else (of_char c :: nat))"
proof (cases "65 \<le> (of_char c :: nat) \<and> (of_char c :: nat) \<le> 90
         \<or> 192 \<le> (of_char c :: nat) \<and> (of_char c :: nat) \<le> 222
           \<and> (of_char c :: nat) \<noteq> 215")
  case False
  then show ?thesis by (simp only: lowerChar_def if_False)
next
  case True
  obtain b0 b1 b2 b3 b4 b5 b6 b7 where c: "c = Char b0 b1 b2 b3 b4 b5 b6 b7"
    by (cases c)
  have "\<not> b5"
  proof
    assume b5
    then have "c = Char b0 b1 b2 b3 b4 True b6 b7"
      by (simp only: c simp_thms)
    then obtain r k
      where "r \<le> 31" "k \<le> 3" "(of_char c :: nat) = r + 32 + 64 * k"
      using bit5_set_value [of b0 b1 b2 b3 b4 b6 b7] by metis
    then have "\<not> (65 \<le> (of_char c :: nat) \<and> (of_char c :: nat) \<le> 90
                \<or> 192 \<le> (of_char c :: nat) \<and> (of_char c :: nat) \<le> 222)"
      by (rule not_capital)
    with True show False by blast
  qed
  then have c': "c = Char b0 b1 b2 b3 b4 False b6 b7"
    by (simp only: c simp_thms)
  have "lowerChar c = (case c of Char b0 b1 b2 b3 b4 b5 b6 b7 \<Rightarrow> Char b0 b1 b2 b3 b4 True b6 b7)"
    using True by (simp only: lowerChar_def if_True)
  also have "\<dots> = Char b0 b1 b2 b3 b4 True b6 b7"
    by (simp only: c' char.case)
  finally have "(of_char (lowerChar c) :: nat) = of_char (Char b0 b1 b2 b3 b4 False b6 b7) + 32"
    by (simp only: bit5_value)
  then have "(of_char (lowerChar c) :: nat) = of_char c + 32"
    by (simp only: c' [symmetric])
  with True show ?thesis
    by (simp only: if_True)
qed

lemma toLowerCase_Nil_iff: "toLowerCase q = [] \<longleftrightarrow> q = []"
  by (simp add: toLowerCase_def)

lemma filteredSessions_search:
  assumes "searchQuery \<noteq> []"
  shows "filteredSessions sessions statusFilter searchQuery
         = filter (\<lambda>s. (statusFilter = ''all'' \<or> statusString (status (session s)) = statusFilter)
                        \<and> stringIncludes (searchableText s) (toLowerCase searchQuery)) sessions"
  using assms by (simp add: filteredSessions_def Let_def conj_commute)

lemma toLowerCase_append: "toLowerCase (a @ b) = toLowerCase a @ toLowerCase b"
  by (simp add: toLowerCase_def)

lemma toLowerCase_space: "toLowerCase '' '' = '' ''"
  by (simp add: toLowerCase_def lowerChar_def)

lemma toLowerCase_joinWith:
  "toLowerCase (joinWith '' '' xs) = joinWith '' '' (map toLowerCase xs)"
  by (induction "'' ''" xs rule: joinWith.induct)
     (simp_all add: toLowerCase_def lowerChar_def)

lemma filterBoolean_map_toLowerCase:
  "filterBoolean (map (map_option toLowerCase) xs) = map toLowerCase (filterBoolean xs)"
  by (induction xs rule: filterBoolean.induct) (simp_all add: toLowerCase_Nil_iff)

lemma searchableText_folded:
  "searchableText s = joinWith '' '' (filterBoolean (map (map_option toLowerCase) (searchFields s)))"
  by (simp add: searchableText_def toLowerCase_joinWith filterBoolean_map_toLowerCase)

text \<open>
  Claim C5. For a non-empty query, the sessions that pass the filters are those of the
  selected status (any status for \<open>all\<close>) for which the lower-cased query is a contiguous
  part of the lower-cased text made of the custom name, the session id, the working
  directory, the tool name and the file name of the latest event, joined by single
  spaces. A field that is absent is left out of the text: one that is undefined, and one
  that is the empty string, which \<open>filter(Boolean)\<close> removes alike. The match does not
  depend on letter case: two queries that differ in case only select the same sessions,
  and two sessions whose fields differ in case only pass or fail together.
\<close>

theorem search_filter_case_insensitive_substring:
  assumes "searchQuery \<noteq> []"
  shows "filteredSessions sessions statusFilter searchQuery
         = filter (\<lambda>s. (statusFilter = ''all'' \<or> statusString (status (session s)) = statusFilter)
                        \<and> sublist (toLowerCase searchQuery)
                            (toLowerCase (joinWith '' ''
                               [x. Some x \<leftarrow> [customName (session s),
                                                Some (sessionId (session s)),
                                                Some (workingDirectory (session s)),
                                                map_option toolName (latestEvent s),
                                                Option.bind (latestEvent s) fileName],
                                   x \<noteq> []])))
             sessions
         \<and> (toLowerCase q' = toLowerCase searchQuery
              \<longrightarrow> filteredSessions sessions statusFilter q'
                  = filteredSessions sessions statusFilter searchQuery)
         \<and> (map_option toLowerCase (customName (session s1))
                = map_option toLowerCase (customName (session s2))
              \<and> toLowerCase (sessionId (session s1)) = toLowerCase (sessionId (session s2))
              \<and> toLowerCase (workingDirectory (session s1))
                = toLowerCase (workingDirectory (session s2))
              \<and> map_option (toLowerCase \<circ> toolName) (latestEvent s1)
                = map_option (toLowerCase \<circ> toolName) (latestEvent s2)
              \<and> map_option toLowerCase (Option.bind (latestEvent s1) fileName)
                = map_option toLowerCase (Option.bind (latestEvent s2) fileName)
              \<longrightarrow> (filteredSessions [s1] ''all'' searchQuery = [])
                  = (filteredSessions [s2] ''all'' searchQuery = []))"
proof (intro conjI impI)
  have a: "filteredSessions sessions statusFilter q
         = filter (\<lambda>s. (statusFilter = ''all'' \<or> statusString (status (session s)) = statusFilter)
                        \<and> sublist (toLowerCase q)
                            (toLowerCase (joinWith '' ''
                               [x. Some x \<leftarrow> [customName (session s),
                                                Some (sessionId (session s)),
                                                Some (workingDirectory (session s)),
                                                map_option toolName (latestEvent s),
                                                Option.bind (latestEvent s) fileName],
                                   x \<noteq> []])))
             sessions" if "q \<noteq> []" for q
  proof -
    have e: "searchableText s
          = toLowerCase (joinWith '' ''
                               [x. Some x \<leftarrow> [customName (session s),
                                                Some (sessionId (session s)),
                                                Some (workingDirectory (session s)),
                                                map_option toolName (latestEvent s),
                                                Option.bind (latestEvent s) fileName],
                                   x \<noteq> []])" for s
      unfolding searchableText_def filterBoolean_comprehension searchFields_def ..
    show ?thesis
      unfolding filteredSessions_search [OF that] stringIncludes_sublist e ..
  qed
  show "filteredSessions sessions statusFilter searchQuery
         = filter (\<lambda>s. (statusFilter = ''all'' \<or> statusString (status (session s)) = statusFilter)
                        \<and> sublist (toLowerCase searchQuery)
                            (toLowerCase (joinWith '' ''
                               [x. Some x \<leftarrow> [customName (session s),
                                                Some (sessionId (session s)),
                                                Some (workingDirectory (session s)),
                                                map_option toolName (latestEvent s),
                                                Option.bind (latestEvent s) fileName],
                                   x \<noteq> []])))
             sessions"
    using assms by (rule a)
  {
    assume h: "toLowerCase q' = toLowerCase searchQuery"
    with assms have "q' \<noteq> []"
      using toLowerCase_Nil_iff by metis
    then show "filteredSessions sessions statusFilter q'
               = filteredSessions sessions statusFilter searchQuery"
      using h by (simp only: filteredSessions_search [OF assms] filteredSessions_search [OF \<open>q' \<noteq> []\<close>])
  }
  {
    assume h: "map_option toLowerCase (customName (session s1))
                = map_option toLowerCase (customName (session s2))
              \<and> toLowerCase (sessionId (session s1)) = toLowerCase (sessionId (session s2))
              \<and> toLowerCase (workingDirectory (session s1))
                = toLowerCase (workingDirectory (session s2))
              \<and> map_option (toLowerCase \<circ> toolName) (latestEvent s1)
                = map_option (toLowerCase \<circ> toolName) (latestEvent s2)
              \<and> map_option toLowerCase (Option.bind (latestEvent s1) fileName)
                = map_option toLowerCase (Option.bind (latestEvent s2) fileName)"
    then have "map (map_option toLowerCase) (searchFields s1)
               = map (map_option toLowerCase) (searchFields s2)"
      by (simp add: searchFields_def option.map_comp)
    then have "searchableText s1 = searchableText s2"
      by (simp only: searchableText_folded)
    then show "(filteredSessions [s1] ''all'' searchQuery = [])
                  = (filteredSessions [s2] ''all'' searchQuery = [])"
      using assms by (simp add: filteredSessions_search)
  }
qed


text \<open>
  The queries \<open>REPO\<close> and \<open>repo\<close> both select the session in \<open>/home/Repo\<close> and not the
  other one; \<open>REPO\<close> selects the session in \<open>/HOME/REPO\<close> too; a capital E with acute
  accent finds the session whose id is the small one; and the session with the empty
  working directory is searched as \<open>a1 read\<close>.
\<close>

theorem search_filter_case_insensitive_substring_witness:
  "filteredSessions
     [mkSession ''a1'' ''/home/Repo'' ''/home/Repo'' active,
      mkSession ''b2'' ''/tmp'' [] idle] ''all'' ''REPO''
   = [mkSession ''a1'' ''/home/Repo'' ''/home/Repo'' active]
   \<and> filteredSessions
     [mkSession ''a1'' ''/home/Repo'' ''/home/Repo'' active,
      mkSession ''b2'' ''/tmp'' [] idle] ''all'' ''repo''
   = [mkSession ''a1'' ''/home/Repo'' ''/home/Repo'' active]
   \<and> filteredSessions [mkSession ''A1'' ''/x'' ''/HOME/REPO'' idle] ''all'' ''REPO''
   = [mkSession ''A1'' ''/x'' ''/HOME/REPO'' idle]
   \<and> filteredSessions [mkSession [CHR 0xE9] ''/x'' ''/x'' active] ''all'' [CHR 0xC9]
   = [mkSession [CHR 0xE9] ''/x'' ''/x'' active]
   \<and> filteredSessions [emptyDirSession] ''all'' ''a1 read'' = [emptyDirSession]"
proof -
  let ?a = "mkSession ''a1'' ''/home/Repo'' ''/home/Repo'' active"
  let ?b = "mkSession ''b2'' ''/tmp'' [] idle"
  let ?c = "mkSession ''A1'' ''/x'' ''/HOME/REPO'' idle"
  have 1: "''REPO'' \<noteq> []" by simp
  have 2: "toLowerCase ''repo'' = toLowerCase ''REPO''"
    by (simp add: toLowerCase_def lowerChar_def)
  have 3: "sublist ''repo'' ''a1 /home/repo''"
    by (simp add: stringIncludes_sublist [symmetric])
  have 4: "\<not> sublist ''repo'' ''b2''"
    by (simp add: stringIncludes_sublist [symmetric])
  have 5: "map_option toLowerCase (customName (session ?a))
             = map_option toLowerCase (customName (session ?c))
           \<and> toLowerCase (sessionId (session ?a)) = toLowerCase (sessionId (session ?c))
           \<and> toLowerCase (workingDirectory (session ?a))
             = toLowerCase (workingDirectory (session ?c))
           \<and> map_option (toLowerCase \<circ> toolName) (latestEvent ?a)
             = map_option (toLowerCase \<circ> toolName) (latestEvent ?c)
           \<and> map_option toLowerCase (Option.bind (latestEvent ?a) fileName)
             = map_option toLowerCase (Option.bind (latestEvent ?c) fileName)"
    by (simp add: mkSession_def toLowerCase_def lowerChar_def)
  have 6: "filteredSessions [mkSession [CHR 0xE9] ''/x'' ''/x'' active] ''all'' [CHR 0xC9]
           = [mkSession [CHR 0xE9] ''/x'' ''/x'' active]"
    by (simp add: filteredSessions_def searchableText_def searchFields_def mkSession_def
          toLowerCase_def lowerChar_def)
  have 7: "filteredSessions [emptyDirSession] ''all'' ''a1 read'' = [emptyDirSession]"
    by (simp add: filteredSessions_def searchableText_def searchFields_def mkSession_def
          emptyDirSession_def toLowerCase_def lowerChar_def)
  have 8: "filteredSessions [?c] ''all'' ''REPO'' = [?c] \<or> filteredSessions [?c] ''all'' ''REPO'' = []"
    by (simp add: filteredSessions_def)
  from search_filter_case_insensitive_substring [OF 1, of "[?a, ?b]" "''all''" "''repo''" ?a ?c]
  have "filteredSessions [?a, ?b] ''all'' ''REPO'' = [?a]
        \<and> filteredSessions [?a, ?b] ''all'' ''repo'' = [?a]
        \<and> (filteredSessions [?a] ''all'' ''REPO'' = []) = (filteredSessions [?c] ''all'' ''REPO'' = [])"
    using 2 3 4 5
    by (simp add: mkSession_def toLowerCase_def lowerChar_def)
  moreover have "filteredSessions [?a] ''all'' ''REPO'' = [?a]"
    by (simp add: filteredSessions_def searchableText_def searchFields_def mkSession_def
          toLowerCase_def lowerChar_def)
  ultimately show ?thesis
    using 6 7 8 by auto
qed

section \<open>Properties of the sessions panel: grouping and order\<close>

lemma mset_insertBy: "mset (insertBy cmp x xs) = add_mset x (mset xs)"
  by (induction xs) simp_all

lemma mset_sortBy: "mset (sortBy cmp xs) = mset xs"
  by (induction xs) (simp_all add: mset_insertBy)

lemma set_sortBy: "set (sortBy cmp xs) = set xs"
  by (rule mset_eq_setD [OF mset_sortBy])

lemma groupedUpTo_Nil: "groupedUpTo [] []"
  by (simp add: groupedUpTo_def)

lemma groupedUpTo_addSession:
  assumes inv: "groupedUpTo groups seen"
  shows "groupedUpTo (addSession groups s) (seen @ [s])"
proof -
  let ?k = "normalizedKey s"
  define g0 where "g0 =
    (case map_of groups ?k of
       Some g \<Rightarrow> g
     | None \<Rightarrow> \<lparr>groupDirectory = rawDirectory s, normalizedDirectory = ?k, groupSessions = [],
                groupLastActivity = 0, isCurrentDirectory = False\<rparr>)"
  define g1 where "g1 = g0\<lparr>groupSessions := groupSessions g0 @ [s]\<rparr>"
  define activity where "activity = (case lastActivity (session s) of None \<Rightarrow> 0 | Some t \<Rightarrow> t)"
  define g2 where "g2 =
    (if activity > groupLastActivity g1 then g1\<lparr>groupLastActivity := activity\<rparr> else g1)"
  have upd: "addSession groups s = AList.update ?k g2 groups"
    unfolding addSession_def Let_def g2_def g1_def g0_def activity_def ..
  have nd: "normalizedDirectory g2 = normalizedDirectory g0"
    by (simp add: g2_def g1_def)
  have gs: "groupSessions g2 = groupSessions g0 @ [s]"
    by (simp add: g2_def g1_def)
  from inv have d: "distinct (map fst groups)"
    by (simp add: groupedUpTo_def)
  from inv have keys: "fst ` set groups = normalizedKey ` set seen"
    by (simp add: groupedUpTo_def)
  from inv have grp: "normalizedDirectory g = k \<and> groupSessions g = filter (\<lambda>s. normalizedKey s = k) seen"
    if "map_of groups k = Some g" for k g
    using that unfolding groupedUpTo_def by blast
  have g0: "normalizedDirectory g0 = ?k
      \<and> groupSessions g0 = filter (\<lambda>t. normalizedKey t = ?k) seen"
  proof (cases "map_of groups ?k")
    case None
    then have "?k \<notin> fst ` set groups"
      by (simp add: map_of_eq_None_iff)
    with keys have notin: "?k \<notin> normalizedKey ` set seen"
      by simp
    have "normalizedKey t \<noteq> ?k" if t: "t \<in> set seen" for t
    proof
      assume "normalizedKey t = ?k"
      then have "?k \<in> normalizedKey ` set seen"
        using imageI [OF t, of normalizedKey] by simp
      with notin show False ..
    qed
    then have "filter (\<lambda>t. normalizedKey t = ?k) seen = []"
      by (simp add: filter_empty_conv)
    with None show ?thesis by (simp add: g0_def)
  next
    case (Some g)
    with grp [of ?k g] show ?thesis by (simp add: g0_def)
  qed
  have 1: "distinct (map fst (addSession groups s))"
    unfolding upd using d by (rule distinct_update)
  have 2: "fst ` set (addSession groups s) = normalizedKey ` set (seen @ [s])"
    unfolding upd by (simp add: dom_update keys)
  have 3: "normalizedDirectory g = k
           \<and> groupSessions g = filter (\<lambda>t. normalizedKey t = k) (seen @ [s])"
    if m: "map_of (addSession groups s) k = Some g" for k g
  proof (cases "k = ?k")
    case True
    with m have "g = g2"
      by (simp add: upd update_conv')
    with True nd gs g0 show ?thesis by simp
  next
    case False
    with m have "map_of groups k = Some g"
      by (simp add: upd update_conv')
    from grp [OF this] False show ?thesis by simp
  qed
  show ?thesis
    unfolding groupedUpTo_def
  proof (intro conjI allI impI)
    show "distinct (map fst (addSession groups s))"
      by (rule 1)
    show "fst ` set (addSession groups s) = normalizedKey ` set (seen @ [s])"
      by (rule 2)
  next
    fix k g
    assume m: "map_of (addSession groups s) k = Some g"
    from 3 [OF m] show "normalizedDirectory g = k"
      by (rule conjunct1)
    from 3 [OF m] show "groupSessions g = filter (\<lambda>s. normalizedKey s = k) (seen @ [s])"
      by (rule conjunct2)
  qed
qed

lemma groupedUpTo_foldl:
  "groupedUpTo groups seen \<Longrightarrow> groupedUpTo (foldl addSession groups rest) (seen @ rest)"
proof (induction rest arbitrary: groups seen)
  case Nil
  then show ?case by simp
next
  case (Cons s rest)
  from Cons.IH [OF groupedUpTo_addSession [OF Cons.prems, of s]] show ?case
    by simp
qed

lemma groupedUpTo_all: "groupedUpTo (foldl addSession [] filtered) filtered"
  using groupedUpTo_foldl [OF groupedUpTo_Nil, of filtered] by simp

lemma groupedUpTo_member:
  assumes "groupedUpTo groups seen" and "(k, g) \<in> set groups"
  shows "normalizedDirectory g = k \<and> groupSessions g = filter (\<lambda>s. normalizedKey s = k) seen"
proof -
  from assms have "map_of groups k = Some g"
    by (simp add: groupedUpTo_def)
  with assms(1) show ?thesis
    unfolding groupedUpTo_def by blast
qed

lemma groupedUpTo_keys:
  assumes "groupedUpTo groups seen"
  shows "map (normalizedDirectory \<circ> snd) groups = map fst groups"
  using groupedUpTo_member [OF assms] by (auto intro!: map_cong [OF refl])

lemma markCurrent_fields:
  "normalizedDirectory (markCurrent nr g) = normalizedDirectory g"
  "groupSessions (markCurrent nr g) = groupSessions g"
  "groupDirectory (markCurrent nr g) = groupDirectory g"
  "isCurrentDirectory (markCurrent nr g) \<longleftrightarrow> nr = Some (normalizedDirectory g)"
  by (auto simp: markCurrent_def)

text \<open>What holds of every group of the result, and of the result as a whole.\<close>

lemma sessionsByDirectory_mset:
  "mset (sessionsByDirectory lc nr filtered)
     = mset (map (markCurrent nr \<circ> snd) (foldl addSession [] filtered))"
  by (simp add: sessionsByDirectory_def Let_def mset_sortBy)

lemma sessionsByDirectory_member:
  assumes "g \<in> set (sessionsByDirectory lc nr filtered)"
  shows "groupSessions g = filter (\<lambda>s. normalizedKey s = normalizedDirectory g) filtered
         \<and> (isCurrentDirectory g \<longleftrightarrow> nr = Some (normalizedDirectory g))"
proof -
  from assms obtain k g0 where m: "(k, g0) \<in> set (foldl addSession [] filtered)"
    and g: "g = markCurrent nr g0"
    by (auto simp: sessionsByDirectory_def Let_def set_sortBy)
  from groupedUpTo_member [OF groupedUpTo_all m] g show ?thesis
    by (simp add: markCurrent_fields)
qed

lemma sessionsByDirectory_keys:
  "mset (map normalizedDirectory (sessionsByDirectory lc nr filtered))
     = mset (map fst (foldl addSession [] filtered))"
proof -
  have "mset (map normalizedDirectory (sessionsByDirectory lc nr filtered))
        = image_mset normalizedDirectory (mset (sessionsByDirectory lc nr filtered))"
    by simp
  also have "\<dots> = image_mset normalizedDirectory
                     (mset (map (markCurrent nr \<circ> snd) (foldl addSession [] filtered)))"
    by (simp only: sessionsByDirectory_mset)
  also have "\<dots> = mset (map (normalizedDirectory \<circ> snd) (foldl addSession [] filtered))"
    by (simp add: markCurrent_fields comp_def multiset.map_comp)
  also have "\<dots> = mset (map fst (foldl addSession [] filtered))"
    by (simp only: groupedUpTo_keys [OF groupedUpTo_all])
  finally show ?thesis .
qed

lemma sessionsByDirectory_distinct:
  "distinct (map normalizedDirectory (sessionsByDirectory lc nr filtered))"
proof -
  have "distinct (map fst (foldl addSession [] filtered))"
    using groupedUpTo_all [of filtered] by (simp add: groupedUpTo_def)
  then show ?thesis
    by (simp only: mset_eq_imp_distinct_iff [OF sessionsByDirectory_keys])
qed

lemma sessionsByDirectory_key_set:
  "normalizedDirectory ` set (sessionsByDirectory lc nr filtered) = normalizedKey ` set filtered"
proof -
  have "set (map normalizedDirectory (sessionsByDirectory lc nr filtered))
        = set (map fst (foldl addSession [] filtered))"
    by (rule mset_eq_setD [OF sessionsByDirectory_keys])
  also have "\<dots> = normalizedKey ` set filtered"
    using groupedUpTo_all [of filtered] by (simp add: groupedUpTo_def)
  finally show ?thesis by simp
qed

text \<open>
  Lists of lists with distinct keys, each holding the elements of its key: together they
  hold every element once.
\<close>

lemma mset_concat_by_key:
  assumes "distinct ks"
  shows "mset (concat (map (\<lambda>k. filter (\<lambda>s. key s = k) xs) ks))
         = mset (filter (\<lambda>s. key s \<in> set ks) xs)"
  using assms
proof (induction ks)
  case Nil
  show ?case by simp
next
  case (Cons k ks)
  have "mset (filter (\<lambda>s. key s \<in> set (k # ks)) xs)
        = mset (filter (\<lambda>s. key s = k) xs) + mset (filter (\<lambda>s. key s \<in> set ks) xs)"
    using Cons.prems by (induction xs) auto
  with Cons show ?case by simp
qed

lemma sessionsByDirectory_sessions:
  "map groupSessions (sessionsByDirectory lc nr filtered)
   = map (\<lambda>g. filter (\<lambda>s. normalizedKey s = normalizedDirectory g) filtered)
       (sessionsByDirectory lc nr filtered)"
proof (rule map_cong [OF refl])
  fix g
  assume "g \<in> set (sessionsByDirectory lc nr filtered)"
  from sessionsByDirectory_member [OF this]
  show "groupSessions g = filter (\<lambda>s. normalizedKey s = normalizedDirectory g) filtered"
    by (rule conjunct1)
qed

lemma sessionsByDirectory_mset_sessions:
  "mset (concat (map groupSessions (sessionsByDirectory lc nr filtered))) = mset filtered"
proof -
  let ?gs = "sessionsByDirectory lc nr filtered"
  have "map groupSessions ?gs
        = map (\<lambda>k. filter (\<lambda>s. normalizedKey s = k) filtered) (map normalizedDirectory ?gs)"
    by (simp only: sessionsByDirectory_sessions [of lc nr filtered] map_map comp_def)
  then have "mset (concat (map groupSessions ?gs))
        = mset (filter (\<lambda>s. normalizedKey s \<in> set (map normalizedDirectory ?gs)) filtered)"
    by (simp only: mset_concat_by_key [OF sessionsByDirectory_distinct])
  also have "\<dots> = mset filtered"
    by (simp add: sessionsByDirectory_key_set)
  finally show ?thesis .
qed


lemma set_insertBy: "set (insertBy cmp x xs) = insert x (set xs)"
  by (rule trans [OF mset_eq_setD [of _ "x # xs"]]) (simp_all add: mset_insertBy)

lemma sorted_insertBy:
  assumes total: "\<And>a b. cmp a b \<le> 0 \<or> cmp b a \<le> 0"
    and trans: "\<And>a b c. cmp a b \<le> 0 \<Longrightarrow> cmp b c \<le> 0 \<Longrightarrow> cmp a c \<le> 0"
    and sorted: "sorted_wrt (\<lambda>a b. cmp a b \<le> 0) xs"
  shows "sorted_wrt (\<lambda>a b. cmp a b \<le> 0) (insertBy cmp x xs)"
  using sorted
proof (induction xs)
  case Nil
  show ?case by simp
next
  case (Cons y ys)
  show ?case
  proof (cases "cmp x y \<le> 0")
    case True
    with Cons.prems trans [of x y] show ?thesis by auto
  next
    case False
    with total [of x y] have "cmp y x \<le> 0" by simp
    with False Cons show ?thesis by (auto simp: set_insertBy)
  qed
qed

lemma sorted_sortBy:
  assumes "\<And>a b. cmp a b \<le> 0 \<or> cmp b a \<le> 0"
    and "\<And>a b c. cmp a b \<le> 0 \<Longrightarrow> cmp b c \<le> 0 \<Longrightarrow> cmp a c \<le> 0"
  shows "sorted_wrt (\<lambda>a b. cmp a b \<le> 0) (sortBy cmp xs)"
proof (induction xs)
  case Nil
  show ?case by simp
next
  case (Cons x xs)
  from sorted_insertBy [of cmp, OF assms Cons] show ?case by simp
qed

lemma compareGroups_total:
  assumes "\<And>a b. lc a b \<le> 0 \<or> lc b a \<le> 0"
  shows "compareGroups lc g h \<le> 0 \<or> compareGroups lc h g \<le> 0"
  using assms [of "groupDirectory g" "groupDirectory h"] by (auto simp: compareGroups_def)

lemma compareGroups_trans:
  assumes tr: "\<And>a b c. lc a b \<le> 0 \<Longrightarrow> lc b c \<le> 0 \<Longrightarrow> lc a c \<le> 0"
    and fg: "compareGroups lc f g \<le> 0" and gh: "compareGroups lc g h \<le> 0"
  shows "compareGroups lc f h \<le> 0"
proof (cases "isCurrentDirectory f = isCurrentDirectory h")
  case False
  with fg gh show ?thesis
    by (cases "isCurrentDirectory f"; cases "isCurrentDirectory g")
       (simp_all add: compareGroups_def)
next
  case True
  with fg gh have "isCurrentDirectory g = isCurrentDirectory f"
    by (cases "isCurrentDirectory f"; cases "isCurrentDirectory g")
       (simp_all add: compareGroups_def)
  with True fg gh have "lc (groupDirectory f) (groupDirectory g) \<le> 0"
    and "lc (groupDirectory g) (groupDirectory h) \<le> 0"
    by (simp_all add: compareGroups_def)
  then have "lc (groupDirectory f) (groupDirectory h) \<le> 0"
    by (rule tr)
  with True show ?thesis
    by (simp add: compareGroups_def)
qed

lemma sorted_wrt_split:
  assumes "sorted_wrt R xs" and "\<And>a b. R a b \<Longrightarrow> P b \<Longrightarrow> P a"
  shows "xs = filter P xs @ filter (\<lambda>x. \<not> P x) xs"
  using assms(1)
proof (induction xs)
  case Nil
  show ?case by simp
next
  case (Cons x xs)
  show ?case
  proof (cases "P x")
    case True
    with Cons show ?thesis by simp
  next
    case False
    have "\<not> P y" if "y \<in> set xs" for y
      using Cons.prems that assms(2) [of x y] False by auto
    then have "filter P xs = []" "filter (\<lambda>x. \<not> P x) xs = xs"
      by (simp_all add: filter_empty_conv filter_id_conv)
    with False show ?thesis by simp
  qed
qed

lemma at_most_one_with_key:
  assumes "distinct (map f xs)" and "\<And>x. x \<in> set xs \<Longrightarrow> P x \<Longrightarrow> f x = c"
  shows "length (filter P xs) \<le> 1"
  using assms
proof (induction xs)
  case Nil
  show ?case by simp
next
  case (Cons x xs)
  show ?case
  proof (cases "P x")
    case False
    with Cons show ?thesis by simp
  next
    case True
    have "\<not> P y" if y: "y \<in> set xs" for y
    proof
      assume "P y"
      with y Cons.prems(2) [of y] Cons.prems(2) [of x] True have "f x = f y" by simp
      then have "f x \<in> f ` set xs"
        using imageI [OF y, of f] by simp
      with Cons.prems(1) show False by simp
    qed
    then have "filter P xs = []"
      by (simp add: filter_empty_conv)
    with True show ?thesis by simp
  qed
qed

lemma foldedCompare_total: "foldedCompare a b \<le> 0 \<or> foldedCompare b a \<le> 0"
  by (auto simp: foldedCompare_def)

lemma foldedCompare_trans:
  "foldedCompare a b \<le> 0 \<Longrightarrow> foldedCompare b c \<le> 0 \<Longrightarrow> foldedCompare a c \<le> 0"
  unfolding foldedCompare_def by (auto split: if_splits)

lemma filteredSessions_filter:
  "filteredSessions sessions statusFilter searchQuery
   = filter (\<lambda>s. (statusFilter = ''all'' \<or> statusString (status (session s)) = statusFilter)
                  \<and> (searchQuery = []
                       \<or> stringIncludes (searchableText s) (toLowerCase searchQuery)))
       sessions"
  by (simp add: filteredSessions_def Let_def conj_commute)

text \<open>
  Claim C2. Whatever the sessions, the status filter and the query (and whatever
  \<open>localeCompare\<close> does), the groups partition the filtered sessions, that is the sessions
  that pass both filters: the groups have pairwise different normalized directories;
  these are the keys of the filtered sessions; each group holds, in their order, the
  filtered sessions with its key and no other session, and none is empty; and the
  sessions of all groups together are the filtered sessions, each as often as it is in
  the filtered list.
\<close>

theorem directory_groups_partition:
  fixes localeCompare repositoryPath sessions statusFilter searchQuery
  defines "filtered \<equiv> filteredSessions sessions statusFilter searchQuery"
    and "gs \<equiv> directoryGroups localeCompare repositoryPath sessions statusFilter searchQuery"
  shows "distinct (map normalizedDirectory gs)
     \<and> set (map normalizedDirectory gs) = normalizedKey ` set filtered
     \<and> map groupSessions gs
         = map (\<lambda>g. filter (\<lambda>s. normalizedKey s = normalizedDirectory g) filtered) gs
     \<and> [] \<notin> set (map groupSessions gs)
     \<and> mset (concat (map groupSessions gs)) = mset filtered
     \<and> filtered
         = filter (\<lambda>s. (statusFilter = ''all'' \<or> statusString (status (session s)) = statusFilter)
                        \<and> (searchQuery = []
                             \<or> stringIncludes (searchableText s) (toLowerCase searchQuery)))
             sessions"
proof -
  let ?nr = "normalizedRepositoryPath repositoryPath"
  have gs: "gs = sessionsByDirectory localeCompare ?nr filtered"
    by (simp add: gs_def filtered_def directoryGroups_def)
  have keys: "set (map normalizedDirectory gs) = normalizedKey ` set filtered"
    by (simp add: gs sessionsByDirectory_key_set)
  have "groupSessions g \<noteq> []" if g: "g \<in> set gs" for g
  proof -
    from g keys have "normalizedDirectory g \<in> normalizedKey ` set filtered"
      by auto
    then obtain s where "s \<in> set filtered" "normalizedKey s = normalizedDirectory g"
      by auto
    then have "s \<in> set (filter (\<lambda>s. normalizedKey s = normalizedDirectory g) filtered)"
      by simp
    moreover from g have "g \<in> set (sessionsByDirectory localeCompare ?nr filtered)"
      by (simp only: gs)
    then have "groupSessions g = filter (\<lambda>s. normalizedKey s = normalizedDirectory g) filtered"
      by (rule conjunct1 [OF sessionsByDirectory_member])
    ultimately show ?thesis
      by (metis empty_iff list.set(1))
  qed
  then have nonempty: "[] \<notin> set (map groupSessions gs)"
    by (metis (no_types, lifting) imageE list.set_map)
  from keys nonempty show ?thesis
    unfolding gs
    using sessionsByDirectory_distinct [of localeCompare ?nr filtered]
      sessionsByDirectory_sessions [of localeCompare ?nr filtered]
      sessionsByDirectory_mset_sessions [of localeCompare ?nr filtered]
      filteredSessions_filter [of sessions statusFilter searchQuery]
    by (simp add: filtered_def)
qed

text \<open>
  The example of the specification: of two sessions in \<open>/repo\<close>, one active and one idle,
  the status filter \<open>active\<close> leaves one group, \<open>/repo\<close>, with the active session alone.
\<close>

lemma status_filter_example:
  "map (\<lambda>g. (normalizedDirectory g, map (sessionId \<circ> session) (groupSessions g)))
     (directoryGroups foldedCompare None
        [mkSession ''a'' ''/repo'' ''/repo'' active, mkSession ''b'' ''/repo'' ''/repo'' idle]
        ''active'' [])
   = [(''/repo'', [''a''])]"
  by (simp add: directoryGroups_def sessionsByDirectory_def filteredSessions_def addSession_def
        Let_def mkSession_def normalizedKey_def rawDirectory_def normalizePath_def
        stripTrailingSlashes_def replaceBackslashes_def slash_def backslash_def
        UNKNOWN_DIRECTORY_LABEL_def markCurrent_def normalizedRepositoryPath_def)

text \<open>
  Whatever else \<open>localeCompare\<close> does: when it puts \<open>/B\<close> after \<open>/a\<close>, the groups of
  two sessions in \<open>/B\<close> and in \<open>/a\<close> come out as \<open>/a\<close>, \<open>/B\<close>.
\<close>

lemma a_before_B:
  assumes "0 < lc ''/B'' ''/a''"
  shows "map groupDirectory
           (directoryGroups lc None
              [mkSession ''s1'' ''/B'' ''/B'' active, mkSession ''s2'' ''/a'' ''/a'' active]
              ''all'' [])
         = [''/a'', ''/B'']"
  using assms
  by (simp add: directoryGroups_def sessionsByDirectory_def filteredSessions_def addSession_def
        Let_def mkSession_def normalizedKey_def rawDirectory_def normalizePath_def
        stripTrailingSlashes_def replaceBackslashes_def slash_def backslash_def
        UNKNOWN_DIRECTORY_LABEL_def markCurrent_def normalizedRepositoryPath_def
        compareGroups_def)

text \<open>
  Claim C3 as stated fails where the locale order and the lexicographic order of the code
  units differ. The locale comparison puts \<open>/a\<close> before \<open>/B\<close> (letters are compared
  without regard to case first), and so do the groups of two sessions in \<open>/B\<close> and in
  \<open>/a\<close>; in the lexicographic order of the code units \<open>/B\<close> comes first, the code of
  \<open>B\<close> being 66 and that of \<open>a\<close> 97.
\<close>

theorem locale_order_counterexample:
  "map groupDirectory
     (directoryGroups foldedCompare None
        [mkSession ''s1'' ''/B'' ''/B'' active, mkSession ''s2'' ''/a'' ''/a'' active]
        ''all'' [])
   = [''/a'', ''/B'']
   \<and> \<not> sorted (map codeUnits
          (map groupDirectory
             (directoryGroups foldedCompare None
                [mkSession ''s1'' ''/B'' ''/B'' active, mkSession ''s2'' ''/a'' ''/a'' active]
                ''all'' [])))
   \<and> codeUnits ''/B'' < codeUnits ''/a''"
proof -
  have "0 < foldedCompare ''/B'' ''/a''"
    by (simp add: foldedCompare_def codeUnits_def toLowerCase_def lowerChar_def)
  then have "map groupDirectory
     (directoryGroups foldedCompare None
        [mkSession ''s1'' ''/B'' ''/B'' active, mkSession ''s2'' ''/a'' ''/a'' active]
        ''all'' [])
   = [''/a'', ''/B'']"
    by (rule a_before_B)
  then show ?thesis
    by (simp add: codeUnits_def)
qed

text \<open>
  Claim C3, amended. The order of the groups other than the current one is the order of
  \<open>localeCompare\<close> on their \<open>directory\<close>, the collation of the host's locale, which is
  not the lexicographic order of the code units. Let \<open>localeCompare\<close> be a consistent
  comparison (of any two strings one is not after the other, and "not after" is
  transitive), as the language requires of it. Then in the sequence of groups: a group is
  marked current exactly when its normalized directory is the normalized repository path;
  at most one group is; the current group, when there is one, stands first and all others
  follow it; and the others are in ascending order of their \<open>directory\<close> as
  \<open>localeCompare\<close> orders strings.
\<close>

theorem current_group_first_rest_sorted:
  fixes localeCompare repositoryPath sessions statusFilter searchQuery
  defines "gs \<equiv> directoryGroups localeCompare repositoryPath sessions statusFilter searchQuery"
  assumes total: "\<forall>a b. localeCompare a b \<le> 0 \<or> localeCompare b a \<le> 0"
    and trans: "\<forall>a b c. localeCompare a b \<le> 0 \<and> localeCompare b c \<le> 0
                  \<longrightarrow> localeCompare a c \<le> 0"
  shows "map isCurrentDirectory gs
         = map (\<lambda>g. normalizedRepositoryPath repositoryPath = Some (normalizedDirectory g)) gs
     \<and> length (filter isCurrentDirectory gs) \<le> 1
     \<and> gs = filter isCurrentDirectory gs @ filter (\<lambda>g. \<not> isCurrentDirectory g) gs
     \<and> sorted_wrt (\<lambda>a b. localeCompare (groupDirectory a) (groupDirectory b) \<le> 0)
          (filter (\<lambda>g. \<not> isCurrentDirectory g) gs)"
proof -
  let ?nr = "normalizedRepositoryPath repositoryPath"
  let ?filtered = "filteredSessions sessions statusFilter searchQuery"
  let ?le = "\<lambda>a b. compareGroups localeCompare a b \<le> 0"
  have gs: "gs = sessionsByDirectory localeCompare ?nr ?filtered"
    by (simp add: gs_def directoryGroups_def)
  have cur: "isCurrentDirectory g \<longleftrightarrow> ?nr = Some (normalizedDirectory g)" if "g \<in> set gs" for g
    using sessionsByDirectory_member [of g localeCompare ?nr ?filtered] that
    unfolding gs by simp
  then have 1: "map isCurrentDirectory gs = map (\<lambda>g. ?nr = Some (normalizedDirectory g)) gs"
    by (intro map_cong [OF refl]) simp
  have d: "distinct (map normalizedDirectory gs)"
    unfolding gs by (rule sessionsByDirectory_distinct)
  have 2: "length (filter isCurrentDirectory gs) \<le> 1"
  proof (rule at_most_one_with_key [OF d])
    fix g
    assume "g \<in> set gs" "isCurrentDirectory g"
    with cur [of g] show "normalizedDirectory g = the ?nr"
      by simp
  qed
  have t: "compareGroups localeCompare g h \<le> 0 \<or> compareGroups localeCompare h g \<le> 0" for g h
    using total by (intro compareGroups_total) simp
  have r: "compareGroups localeCompare f h \<le> 0"
    if "compareGroups localeCompare f g \<le> 0" "compareGroups localeCompare g h \<le> 0" for f g h
  proof (rule compareGroups_trans [OF _ that])
    fix a b c
    assume "localeCompare a b \<le> 0" "localeCompare b c \<le> 0"
    with trans show "localeCompare a c \<le> 0" by blast
  qed
  have sorted: "sorted_wrt ?le gs"
    unfolding gs sessionsByDirectory_def Let_def
    by (rule sorted_sortBy [of "compareGroups localeCompare", OF t r])
  have 3: "gs = filter isCurrentDirectory gs @ filter (\<lambda>g. \<not> isCurrentDirectory g) gs"
  proof (rule sorted_wrt_split [OF sorted])
    fix a b
    assume "compareGroups localeCompare a b \<le> 0" "isCurrentDirectory b"
    then show "isCurrentDirectory a"
      by (cases "isCurrentDirectory a") (simp_all add: compareGroups_def)
  qed
  have "sorted_wrt ?le (filter (\<lambda>g. \<not> isCurrentDirectory g) gs)"
    using sorted by (rule sorted_wrt_filter)
  then have 4: "sorted_wrt (\<lambda>a b. localeCompare (groupDirectory a) (groupDirectory b) \<le> 0)
          (filter (\<lambda>g. \<not> isCurrentDirectory g) gs)"
    by (rule sorted_wrt_mono_rel [rotated]) (simp add: compareGroups_def)
  from 1 2 3 4 show ?thesis
    by blast
qed

text \<open>
  Four sessions, in \<open>/b\<close>, \<open>/repo/\<close>, \<open>/a/\<close> and \<open>/b/\<close>, with \<open>/repo\<close> open: the group of
  \<open>/repo\<close> comes first, then \<open>/a\<close> and \<open>/b\<close>.
\<close>

theorem current_group_first_rest_sorted_witness:
  "map (\<lambda>g. (groupDirectory g, normalizedDirectory g, isCurrentDirectory g,
              map (sessionId \<circ> session) (groupSessions g)))
     (directoryGroups foldedCompare (Some ''/repo'') exampleSessions ''all'' [])
   = [(''/repo/'', ''/repo'', True, [''s2'']),
      (''/a/'', ''/a'', False, [''s3'']),
      (''/b'', ''/b'', False, [''s1'', ''s4''])]
   \<and> length (filter isCurrentDirectory
        (directoryGroups foldedCompare (Some ''/repo'') exampleSessions ''all'' [])) \<le> 1"
proof -
  have total: "\<forall>a b. foldedCompare a b \<le> 0 \<or> foldedCompare b a \<le> 0"
    by (simp add: foldedCompare_total)
  have trans: "\<forall>a b c. foldedCompare a b \<le> 0 \<and> foldedCompare b c \<le> 0
                  \<longrightarrow> foldedCompare a c \<le> 0"
    using foldedCompare_trans by blast
  have "map (\<lambda>g. (groupDirectory g, normalizedDirectory g, isCurrentDirectory g,
              map (sessionId \<circ> session) (groupSessions g)))
     (directoryGroups foldedCompare (Some ''/repo'') exampleSessions ''all'' [])
   = [(''/repo/'', ''/repo'', True, [''s2'']),
      (''/a/'', ''/a'', False, [''s3'']),
      (''/b'', ''/b'', False, [''s1'', ''s4''])]"
    by (simp add: directoryGroups_def sessionsByDirectory_def filteredSessions_def addSession_def
        Let_def exampleSessions_def compareGroups_def
        foldedCompare_def codeUnits_def toLowerCase_def lowerChar_def
        mkSession_def normalizedKey_def rawDirectory_def normalizePath_def
        stripTrailingSlashes_def replaceBackslashes_def slash_def backslash_def
        UNKNOWN_DIRECTORY_LABEL_def markCurrent_def normalizedRepositoryPath_def)
  with current_group_first_rest_sorted [OF total trans,
      of "Some ''/repo''" exampleSessions "''all''" "[]"]
  show ?thesis
    by simp
qed

end
